theory Spec2Isabelle
  imports Main "HOL-Library.Sublist"
begin

section \<open>JavaScript strings\<close>

text \<open>
  A JavaScript string is a sequence of UTF-16 code units and \<open>.length\<close> counts code
  units, so a string is modelled as the list of its code unit values. \<open>lit\<close> turns an
  ASCII literal of the source into that representation.
\<close>

type_synonym jstring = "nat list"

definition lit :: "string \<Rightarrow> jstring" where
  "lit s = map of_char s"

text \<open>The character classes \<open>\d\<close> and \<open>\s\<close> of a JavaScript regular expression
  (\<open>\s\<close> is also the set \<open>String.prototype.trim\<close> removes).\<close>

definition is_digit :: "nat \<Rightarrow> bool" where
  "is_digit c \<longleftrightarrow> 48 \<le> c \<and> c \<le> 57"

definition is_space :: "nat \<Rightarrow> bool" where
  "is_space c \<longleftrightarrow>
     c = 9 \<or> c = 10 \<or> c = 11 \<or> c = 12 \<or> c = 13 \<or> c = 32 \<or> c = 160 \<or> c = 5760 \<or>
     (8192 \<le> c \<and> c \<le> 8202) \<or> c = 8232 \<or> c = 8233 \<or> c = 8239 \<or> c = 8287 \<or>
     c = 12288 \<or> c = 65279"

text \<open>\<open>String(n)\<close> for a non-negative integer below \<open>10^21\<close>: its decimal digits.\<close>

fun digits10 :: "nat \<Rightarrow> nat list" where
  "digits10 n = (if n < 10 then [n] else digits10 (n div 10) @ [n mod 10])"

definition String_num :: "nat \<Rightarrow> jstring" where
  "String_num n = map (\<lambda>d. 48 + d) (digits10 n)"

text \<open>\<open>xs.slice(-k)\<close> for \<open>k > 0\<close>: the last \<open>k\<close> elements, all of them when there are fewer.\<close>

definition slice_neg :: "nat \<Rightarrow> 'a list \<Rightarrow> 'a list" where
  "slice_neg k xs = drop (length xs - k) xs"


section \<open>Field extraction (lib/gemini)\<close>

text \<open>
  \<open>extractConfidence\<close> matches \<open>/(\d+(?:\.\d+)?\s*%)/\<close>. \<open>match_percent_at\<close> is the
  match anchored at the start of its argument: the digits, the optional fraction, the
  white space and the percent sign, each quantifier taking all it can. Giving characters
  back never helps this expression (what follows a shortened run of digits is a digit,
  which neither \<open>\.\<close>, \<open>\s\<close> nor \<open>%\<close> accepts), so the greedy path is the only one;
  \<open>match_percent_at_iff\<close> below states it against the language of the expression.
  \<open>search_percent\<close> is \<open>String.prototype.match\<close>: the anchored match is tried at each
  start position from the left.
\<close>

definition match_fraction :: "jstring \<Rightarrow> jstring \<times> jstring" where
  "match_fraction s =
     (case s of
        [] \<Rightarrow> ([], s)
      | c # r \<Rightarrow>
          if c = 46 \<and> takeWhile is_digit r \<noteq> []
          then (46 # takeWhile is_digit r, dropWhile is_digit r)
          else ([], s))"

definition match_percent_at :: "jstring \<Rightarrow> jstring option" where
  "match_percent_at s =
     (let ds = takeWhile is_digit s; r1 = dropWhile is_digit s in
      if ds = [] then None
      else
        let (fr, r2) = match_fraction r1;
            ws = takeWhile is_space r2;
            r3 = dropWhile is_space r2
        in case r3 of
             [] \<Rightarrow> None
           | c # _ \<Rightarrow> if c = 37 then Some (ds @ fr @ ws @ [37]) else None)"

fun search_percent :: "jstring \<Rightarrow> jstring option" where
  "search_percent [] = None"
| "search_percent (c # cs) =
     (case match_percent_at (c # cs) of
        Some w \<Rightarrow> Some w
      | None \<Rightarrow> search_percent cs)"

definition extractConfidence :: "jstring \<Rightarrow> jstring" where
  "extractConfidence t =
     (case search_percent t of
        None \<Rightarrow> []
      | Some w \<Rightarrow> if w = [] then [] else w)"

text \<open>
  The language of the expression: digits, an optional fraction, white space (any number
  of characters of \<open>\s\<close>, possibly none) and a percent sign.
\<close>

definition pct_token :: "jstring \<Rightarrow> bool" where
  "pct_token w \<longleftrightarrow>
     (\<exists>ds fr ws. w = ds @ fr @ ws @ [37] \<and> ds \<noteq> [] \<and> (\<forall>c \<in> set ds. is_digit c) \<and>
        (fr = [] \<or> (\<exists>fs. fr = 46 # fs \<and> fs \<noteq> [] \<and> (\<forall>c \<in> set fs. is_digit c))) \<and>
        (\<forall>c \<in> set ws. is_space c))"

text \<open>A token occurs in \<open>t\<close> at offset \<open>i\<close>.\<close>

definition token_at :: "jstring \<Rightarrow> nat \<Rightarrow> jstring \<Rightarrow> bool" where
  "token_at t i w \<longleftrightarrow> pct_token w \<and> i \<le> length t \<and> prefix w (drop i t)"

text \<open>
  The form \<open>NN[.N]%\<close> of the specification: digits, an optional fraction and the percent
  sign, with no white space in between; and its occurrence in \<open>t\<close> at offset \<open>i\<close>.
\<close>

definition spec_token :: "jstring \<Rightarrow> bool" where
  "spec_token w \<longleftrightarrow>
     (\<exists>ds fr. w = ds @ fr @ [37] \<and> ds \<noteq> [] \<and> (\<forall>c \<in> set ds. is_digit c) \<and>
        (fr = [] \<or> (\<exists>fs. fr = 46 # fs \<and> fs \<noteq> [] \<and> (\<forall>c \<in> set fs. is_digit c))))"

definition spec_token_at :: "jstring \<Rightarrow> nat \<Rightarrow> jstring \<Rightarrow> bool" where
  "spec_token_at t i w \<longleftrightarrow> spec_token w \<and> i \<le> length t \<and> prefix w (drop i t)"


section \<open>Searching and splitting strings\<close>

text \<open>
  \<open>index_of sep s\<close> is \<open>s.indexOf(sep)\<close> (\<open>None\<close> for \<open>-1\<close>), \<open>includes_str\<close> is
  \<open>s.includes(sep)\<close> and \<open>split_str sep s\<close> is \<open>s.split(sep)\<close>: the pieces between the
  occurrences of the separator, found from the left and not overlapping; an empty
  separator splits into code units.
\<close>

fun index_of :: "'a list \<Rightarrow> 'a list \<Rightarrow> nat option" where
  "index_of sep [] = (if sep = [] then Some 0 else None)"
| "index_of sep (c # cs) =
     (if prefix sep (c # cs) then Some 0
      else (case index_of sep cs of None \<Rightarrow> None | Some i \<Rightarrow> Some (Suc i)))"

definition includes_str :: "'a list \<Rightarrow> 'a list \<Rightarrow> bool" where
  "includes_str s sep \<longleftrightarrow> index_of sep s \<noteq> None"

function split_str :: "'a list \<Rightarrow> 'a list \<Rightarrow> 'a list list" where
  "split_str sep s =
     (if sep = [] then map (\<lambda>c. [c]) s
      else (case index_of sep s of
              None \<Rightarrow> [s]
            | Some i \<Rightarrow> take i s # split_str sep (drop (i + length sep) s)))"
  by pat_completeness auto
termination
proof (relation "measure (\<lambda>(sep, s). length s)")
  show "wf (measure (\<lambda>(sep, s). length s))" by simp
next
  fix sep s :: "'a list" and i
  assume sep: "sep \<noteq> []" and found: "index_of sep s = Some i"
  have bound: "index_of sep t = Some j \<Longrightarrow> j + length sep \<le> length t" for t j
  proof (induction t arbitrary: j)
    case Nil
    then show ?case by (simp split: if_splits)
  next
    case (Cons c cs)
    then show ?case
      by (auto split: if_splits option.splits dest: prefix_length_le)
  qed
  from sep obtain a sep' where "sep = a # sep'" by (cases sep) simp_all
  with bound[OF found] have "length (drop (i + length sep) s) < length s" by simp
  then show "((sep, drop (i + length sep) s), (sep, s)) \<in> measure (\<lambda>(sep, s). length s)"
    by simp
qed


section \<open>The diagnosis store (lib/store/diagnosesStore.ts)\<close>

text \<open>
  The store is a plain object literal used as a dictionary, and the records in it are
  plain objects combined with object spread. An object is modelled by its own enumerable
  properties, a map from property names to values. Numbers in the records are the
  integers the callers write (\<open>parseInt(...) || 0\<close> and the seeded values).

  A property read \<open>diagnoses[id]\<close> also looks along the prototype chain, so the model
  keeps that chain: the own properties of \<open>diagnoses\<close>, then the object that an
  assignment to \<open>__proto__\<close> may have installed as its prototype, then
  \<open>Object.prototype\<close>, whose members are functions (\<open>Builtin\<close>) and the accessor
  \<open>__proto__\<close>.

  The counter is a JavaScript number; the model uses \<open>nat\<close>, which agrees with it
  below \<open>2^53\<close>.
\<close>

datatype jsvalue =
    Undefined
  | Num int
  | Str jstring
  | Arr "jsvalue list"
  | Obj "jstring \<Rightarrow> jsvalue option"
  | Builtin jstring

type_synonym jsobject = "jstring \<rightharpoonup> jsvalue"

text \<open>\<open>!v\<close> is \<open>\<not> truthy v\<close>; \<open>own_props v\<close> is what \<open>{...v}\<close> copies.\<close>

fun truthy :: "jsvalue \<Rightarrow> bool" where
  "truthy Undefined = False"
| "truthy (Num n) = (n \<noteq> 0)"
| "truthy (Str s) = (s \<noteq> [])"
| "truthy (Arr xs) = True"
| "truthy (Obj m) = True"
| "truthy (Builtin n) = True"

definition index_props :: "jsvalue list \<Rightarrow> jsobject" where
  "index_props xs = map_of (zip (map String_num [0..<length xs]) xs)"

fun own_props :: "jsvalue \<Rightarrow> jsobject" where
  "own_props (Obj m) = m"
| "own_props (Arr xs) = index_props xs"
| "own_props (Str s) = index_props (map (\<lambda>c. Str [c]) s)"
| "own_props v = Map.empty"

definition obj_of :: "(string \<times> jsvalue) list \<Rightarrow> jsobject" where
  "obj_of kvs = map_of (map (\<lambda>(k, v). (lit k, v)) kvs)"

record store =
  diagnoses :: "jstring \<rightharpoonup> jsobject"
  diagnoses_proto :: "jsobject option"
  diagnosesCounter :: nat

text \<open>
  \<open>store_get\<close> is the read \<open>diagnoses[k]\<close> and \<open>store_set\<close> the assignment
  \<open>diagnoses[k] = v\<close> of an object \<open>v\<close>. An assignment creates an own property, unless it
  reaches the \<open>__proto__\<close> accessor of \<open>Object.prototype\<close>, which replaces the prototype
  of \<open>diagnoses\<close> instead.
\<close>

definition Object_prototype_names :: "jstring list" where
  "Object_prototype_names = map lit
     [''constructor'', ''__defineGetter__'', ''__defineSetter__'', ''hasOwnProperty'',
      ''__lookupGetter__'', ''__lookupSetter__'', ''isPrototypeOf'', ''propertyIsEnumerable'',
      ''toString'', ''valueOf'', ''__proto__'', ''toLocaleString'']"

definition Object_prototype_get :: "store \<Rightarrow> jstring \<Rightarrow> jsvalue" where
  "Object_prototype_get s k =
     (if k = lit ''__proto__''
      then (case diagnoses_proto s of Some p \<Rightarrow> Obj p | None \<Rightarrow> Builtin (lit ''Object.prototype''))
      else if k \<in> set Object_prototype_names then Builtin k
      else Undefined)"

definition inherited_get :: "store \<Rightarrow> jstring \<Rightarrow> jsvalue" where
  "inherited_get s k =
     (case diagnoses_proto s of
        None \<Rightarrow> Object_prototype_get s k
      | Some p \<Rightarrow> (case p k of Some v \<Rightarrow> v | None \<Rightarrow> Object_prototype_get s k))"

definition store_get :: "store \<Rightarrow> jstring \<Rightarrow> jsvalue" where
  "store_get s k = (case diagnoses s k of Some d \<Rightarrow> Obj d | None \<Rightarrow> inherited_get s k)"

definition store_set :: "store \<Rightarrow> jstring \<Rightarrow> jsobject \<Rightarrow> store" where
  "store_set s k v =
     (if k = lit ''__proto__'' \<and> diagnoses s k = None \<and>
         (case diagnoses_proto s of None \<Rightarrow> True | Some p \<Rightarrow> p k = None)
      then s\<lparr>diagnoses_proto := Some v\<rparr>
      else s\<lparr>diagnoses := (diagnoses s)(k \<mapsto> v)\<rparr>)"

definition getDiagnosis :: "jstring \<Rightarrow> store \<Rightarrow> jsvalue" where
  "getDiagnosis k s = store_get s k"

definition addDiagnosis :: "jsobject \<Rightarrow> store \<Rightarrow> jsobject \<times> store" where
  "addDiagnosis diagnosis s =
     (let s1 = s\<lparr>diagnosesCounter := diagnosesCounter s + 1\<rparr>;
          k = String_num (diagnosesCounter s1);
          newDiagnosis = diagnosis(lit ''id'' \<mapsto> Str k);
          s2 = store_set s1 k newDiagnosis
      in (newDiagnosis, s2))"

definition updateDiagnosis :: "jstring \<Rightarrow> jsobject \<Rightarrow> store \<Rightarrow> jsvalue \<times> store" where
  "updateDiagnosis k updates s =
     (if \<not> truthy (store_get s k) then (Undefined, s)
      else
        let s1 = store_set s k (own_props (store_get s k) ++ updates)
        in (store_get s1 k, s1))"

text \<open>The property names of the interface \<open>DiagnosisData\<close>, and the seeded records.
  The third record takes \<open>new Date().toISOString()\<close> at load time as a parameter.\<close>

definition DiagnosisData_fields :: "jstring list" where
  "DiagnosisData_fields = map lit
     [''id'', ''diagnosisDate'', ''type'', ''aiDiagnosis'', ''confidence'', ''status'',
      ''symptoms'', ''doctorName'', ''doctorFeedback'', ''imageSrc'', ''aiModelData'',
      ''treatmentRecommendations'', ''riskFactors'', ''aiResponse'', ''reviewDate'']"

definition strs :: "string list \<Rightarrow> jsvalue" where
  "strs xs = Arr (map (\<lambda>x. Str (lit x)) xs)"

definition seed1 :: jsobject where
  "seed1 = obj_of
     [(''id'', Str (lit ''1'')),
      (''diagnosisDate'', Str (lit ''2023-05-10'')),
      (''type'', Str (lit ''X-Ray Analysis'')),
      (''aiDiagnosis'', Str (lit ''Pneumonia'')),
      (''confidence'', Num 87),
      (''status'', Str (lit ''approved'')),
      (''symptoms'', Str (lit ''Persistent cough for 10 days, fever, chest pain, difficulty breathing'')),
      (''doctorName'', Str (lit ''Dr. Sarah Williams'')),
      (''doctorFeedback'', Str (lit ''I concur with the AI diagnosis. The X-ray shows clear signs of pneumonia in the right lower lobe. I recommend a course of antibiotics (amoxicillin) and rest for at least 5 days. Please schedule a follow-up in one week.'')),
      (''imageSrc'', Str (lit ''/xray-sample.jpg'')),
      (''aiModelData'', Obj (obj_of
         [(''modelVersion'', Str (lit ''MedicalVisionV2.3'')),
          (''analysisTimestamp'', Str (lit ''2023-05-11T09:43:18Z'')),
          (''processingTime'', Str (lit ''3.2 seconds'')),
          (''featuresAnalyzed'', Str (lit ''217 anatomical landmarks detected''))])),
      (''treatmentRecommendations'', strs
         [''Antibiotics (amoxicillin) for 7 days'',
          ''Rest for at least 5 days'',
          ''Increased fluid intake'',
          ''Follow-up appointment in one week'',
          ''Monitor symptoms closely, seek immediate care if condition worsens'']),
      (''riskFactors'', strs
         [''History of respiratory conditions'',
          ''Compromised immune system'',
          ''Recent exposure to respiratory infections''])]"

definition seed2 :: jsobject where
  "seed2 = obj_of
     [(''id'', Str (lit ''2'')),
      (''diagnosisDate'', Str (lit ''2023-06-22'')),
      (''type'', Str (lit ''Medical Image Analysis'')),
      (''aiDiagnosis'', Str (lit ''Migraine with Aura'')),
      (''confidence'', Num 78),
      (''status'', Str (lit ''pending'')),
      (''symptoms'', Str (lit ''Recurring headaches with visual disturbances, nausea, sensitivity to light and sound'')),
      (''doctorName'', Str (lit ''Pending Review'')),
      (''doctorFeedback'', Str (lit '''')),
      (''imageSrc'', Str (lit ''/brain-scan.jpg'')),
      (''aiModelData'', Obj (obj_of
         [(''modelVersion'', Str (lit ''NeurologyVisionV1.5'')),
          (''analysisTimestamp'', Str (lit ''2023-06-22T14:20:33Z'')),
          (''processingTime'', Str (lit ''4.1 seconds'')),
          (''featuresAnalyzed'', Str (lit ''189 neurological patterns detected''))])),
      (''treatmentRecommendations'', strs
         [''Prescription migraine medication'',
          ''Avoid known triggers'',
          ''Keep a headache journal'',
          ''Regular sleep schedule'',
          ''Stress management techniques'']),
      (''riskFactors'', strs
         [''Family history of migraines'',
          ''Hormonal fluctuations'',
          ''Stress and anxiety'',
          ''Sleep disruptions''])]"

definition seed3 :: "jstring \<Rightarrow> jsobject" where
  "seed3 stamp = obj_of
     [(''id'', Str (lit ''3'')),
      (''diagnosisDate'', Str (takeWhile (\<lambda>c. c \<noteq> 84) stamp)),
      (''type'', Str (lit ''Symptom Analysis'')),
      (''aiDiagnosis'', Str (lit ''Seasonal Allergic Rhinitis'')),
      (''confidence'', Num 92),
      (''status'', Str (lit ''pending'')),
      (''symptoms'', Str (lit ''Sneezing, runny nose, itchy eyes, congestion, worse outdoors'')),
      (''doctorName'', Str (lit ''Pending Review'')),
      (''doctorFeedback'', Str (lit '''')),
      (''imageSrc'', Str (lit '''')),
      (''aiModelData'', Obj (obj_of
         [(''modelVersion'', Str (lit ''GeminiMedical-2.0'')),
          (''analysisTimestamp'', Str stamp),
          (''processingTime'', Str (lit ''1.4 seconds'')),
          (''featuresAnalyzed'', Str (lit ''46 symptom patterns analyzed''))])),
      (''treatmentRecommendations'', strs
         [''Over-the-counter antihistamines'',
          ''Nasal corticosteroids'',
          ''Avoid known allergens'',
          ''Keep windows closed during high pollen counts'',
          ''Consider allergy testing for specific triggers'']),
      (''riskFactors'', strs
         [''History of allergies'',
          ''Spring/summer season'',
          ''Outdoor activities'',
          ''Poor air quality''])]"

definition initial_store :: "jstring \<Rightarrow> store" where
  "initial_store stamp =
     \<lparr>diagnoses = [lit ''1'' \<mapsto> seed1, lit ''2'' \<mapsto> seed2, lit ''3'' \<mapsto> seed3 stamp],
      diagnoses_proto = None,
      diagnosesCounter = 3\<rparr>"

text \<open>
  The store is module state: it changes only through the exported functions. A history
  of calls is a list of operations; an update is well typed when its \<open>Partial<DiagnosisData>\<close>
  argument names fields of the interface only. The doctor-review route writes
  \<open>diagnoses[id] = {...diagnoses[id], status, doctorName, doctorFeedback, reviewDate}\<close>
  under the same guard, which is \<open>updateDiagnosis\<close> with those four fields.
\<close>

datatype store_op = Add jsobject | Update jstring jsobject

fun apply_op :: "store \<Rightarrow> store_op \<Rightarrow> store" where
  "apply_op s (Add d) = snd (addDiagnosis d s)"
| "apply_op s (Update k u) = snd (updateDiagnosis k u s)"

fun typed_op :: "store_op \<Rightarrow> bool" where
  "typed_op (Add d) = True"
| "typed_op (Update k u) = (dom u \<subseteq> set DiagnosisData_fields)"

fun is_add :: "store_op \<Rightarrow> bool" where
  "is_add (Add d) = True"
| "is_add (Update k u) = False"

definition run_ops :: "store \<Rightarrow> store_op list \<Rightarrow> store" where
  "run_ops s ops = foldl apply_op s ops"


section \<open>JSON\<close>

text \<open>
  \<open>JSON.parse\<close> by recursive descent over the JSON grammar: white space is tab, line
  feed, carriage return and space; a number keeps its lexeme. \<open>None\<close> is the
  \<open>SyntaxError\<close>. The first argument of \<open>parse_value\<close> bounds the recursion: it
  decreases at each opening bracket and each comma, and the length of the text is enough
  for every text (\<open>JSON_parse_fuel_free\<close> below), so that \<open>None\<close> is never a lack of it.
\<close>

datatype json =
    JNull
  | JBool bool
  | JNum jstring
  | JStr jstring
  | JArr "json list"
  | JObj "(jstring \<times> json) list"

definition json_ws :: "nat \<Rightarrow> bool" where
  "json_ws c \<longleftrightarrow> c = 9 \<or> c = 10 \<or> c = 13 \<or> c = 32"

definition skip_ws :: "jstring \<Rightarrow> jstring" where
  "skip_ws s = dropWhile json_ws s"

definition hex_value :: "nat \<Rightarrow> nat option" where
  "hex_value c =
     (if 48 \<le> c \<and> c \<le> 57 then Some (c - 48)
      else if 97 \<le> c \<and> c \<le> 102 then Some (c - 87)
      else if 65 \<le> c \<and> c \<le> 70 then Some (c - 55)
      else None)"

definition simple_escape :: "nat \<Rightarrow> nat option" where
  "simple_escape e =
     (if e = 34 then Some 34
      else if e = 92 then Some 92
      else if e = 47 then Some 47
      else if e = 98 then Some 8
      else if e = 102 then Some 12
      else if e = 110 then Some 10
      else if e = 114 then Some 13
      else if e = 116 then Some 9
      else None)"

definition unicode_escape_value :: "nat \<Rightarrow> nat \<Rightarrow> nat \<Rightarrow> nat \<Rightarrow> nat option" where
  "unicode_escape_value a b c d =
     (case (hex_value a, hex_value b, hex_value c, hex_value d) of
        (Some w, Some x, Some y, Some z) \<Rightarrow> Some (4096 * w + 256 * x + 16 * y + z)
      | _ \<Rightarrow> None)"

definition cons_char :: "nat \<Rightarrow> (jstring \<times> jstring) option \<Rightarrow> (jstring \<times> jstring) option" where
  "cons_char c r = (case r of None \<Rightarrow> None | Some (str, rest) \<Rightarrow> Some (c # str, rest))"

fun parse_string_body :: "jstring \<Rightarrow> (jstring \<times> jstring) option" where
  "parse_string_body [] = None"
| "parse_string_body (c # cs) =
     (if c = 34 then Some ([], cs)
      else if c = 92 then
        (case cs of
           [] \<Rightarrow> None
         | e # es \<Rightarrow>
             if e = 117 then
               (case es of
                  h1 # h2 # h3 # h4 # r \<Rightarrow>
                    (case unicode_escape_value h1 h2 h3 h4 of
                       None \<Rightarrow> None
                     | Some u \<Rightarrow> cons_char u (parse_string_body r))
                | _ \<Rightarrow> None)
             else
               (case simple_escape e of
                  None \<Rightarrow> None
                | Some ch \<Rightarrow> cons_char ch (parse_string_body es)))
      else if c < 32 then None
      else cons_char c (parse_string_body cs))"

definition take_digits :: "jstring \<Rightarrow> jstring \<times> jstring" where
  "take_digits s = (takeWhile is_digit s, dropWhile is_digit s)"

definition parse_int_part :: "jstring \<Rightarrow> (jstring \<times> jstring) option" where
  "parse_int_part s =
     (case s of
        [] \<Rightarrow> None
      | c # cs \<Rightarrow>
          if c = 48 then Some ([48], cs)
          else if is_digit c then Some (c # takeWhile is_digit cs, dropWhile is_digit cs)
          else None)"

definition parse_frac_part :: "jstring \<Rightarrow> (jstring \<times> jstring) option" where
  "parse_frac_part s =
     (case s of
        c # cs \<Rightarrow>
          if c = 46 then
            (if takeWhile is_digit cs = [] then None
             else Some (46 # takeWhile is_digit cs, dropWhile is_digit cs))
          else Some ([], s)
      | [] \<Rightarrow> Some ([], s))"

definition parse_exp_part :: "jstring \<Rightarrow> (jstring \<times> jstring) option" where
  "parse_exp_part s =
     (case s of
        c # cs \<Rightarrow>
          if c = 101 \<or> c = 69 then
            (let (sg, r) = (case cs of
                              d # ds \<Rightarrow> if d = 43 \<or> d = 45 then ([d], ds) else ([], cs)
                            | [] \<Rightarrow> ([], cs))
             in if takeWhile is_digit r = [] then None
                else Some (c # sg @ takeWhile is_digit r, dropWhile is_digit r))
          else Some ([], s)
      | [] \<Rightarrow> Some ([], s))"

definition parse_number :: "jstring \<Rightarrow> (jstring \<times> jstring) option" where
  "parse_number s =
     (let (sg, r0) = (case s of c # cs \<Rightarrow> if c = 45 then ([45], cs) else ([], s) | [] \<Rightarrow> ([], s))
      in case parse_int_part r0 of
           None \<Rightarrow> None
         | Some (ip, r1) \<Rightarrow>
             (case parse_frac_part r1 of
                None \<Rightarrow> None
              | Some (fp, r2) \<Rightarrow>
                  (case parse_exp_part r2 of
                     None \<Rightarrow> None
                   | Some (ep, r3) \<Rightarrow> Some (sg @ ip @ fp @ ep, r3))))"

definition parse_keyword :: "string \<Rightarrow> json \<Rightarrow> jstring \<Rightarrow> (json \<times> jstring) option" where
  "parse_keyword kw v s =
     (if prefix (lit kw) s then Some (v, drop (length kw) s) else None)"

fun parse_value :: "nat \<Rightarrow> jstring \<Rightarrow> (json \<times> jstring) option"
  and parse_elements :: "nat \<Rightarrow> jstring \<Rightarrow> (json list \<times> jstring) option"
  and parse_members :: "nat \<Rightarrow> jstring \<Rightarrow> ((jstring \<times> json) list \<times> jstring) option"
where
  "parse_value 0 s = None"
| "parse_value (Suc n) s =
     (case s of
        [] \<Rightarrow> None
      | c # cs \<Rightarrow>
          if c = 123 then
            (case skip_ws cs of
               [] \<Rightarrow> None
             | d # ds \<Rightarrow>
                 if d = 125 then Some (JObj [], ds)
                 else (case parse_members n (d # ds) of
                         None \<Rightarrow> None
                       | Some (kvs, r) \<Rightarrow> Some (JObj kvs, r)))
          else if c = 91 then
            (case skip_ws cs of
               [] \<Rightarrow> None
             | d # ds \<Rightarrow>
                 if d = 93 then Some (JArr [], ds)
                 else (case parse_elements n (d # ds) of
                         None \<Rightarrow> None
                       | Some (vs, r) \<Rightarrow> Some (JArr vs, r)))
          else if c = 34 then
            (case parse_string_body cs of
               None \<Rightarrow> None
             | Some (str, r) \<Rightarrow> Some (JStr str, r))
          else if c = 116 then parse_keyword ''true'' (JBool True) s
          else if c = 102 then parse_keyword ''false'' (JBool False) s
          else if c = 110 then parse_keyword ''null'' JNull s
          else (case parse_number s of
                  None \<Rightarrow> None
                | Some (lexeme, r) \<Rightarrow> Some (JNum lexeme, r)))"
| "parse_elements 0 s = None"
| "parse_elements (Suc n) s =
     (case parse_value (Suc n) s of
        None \<Rightarrow> None
      | Some (v, r) \<Rightarrow>
          (case skip_ws r of
             [] \<Rightarrow> None
           | d # ds \<Rightarrow>
               if d = 93 then Some ([v], ds)
               else if d = 44 then
                 (case parse_elements n (skip_ws ds) of
                    None \<Rightarrow> None
                  | Some (vs, r') \<Rightarrow> Some (v # vs, r'))
               else None))"
| "parse_members 0 s = None"
| "parse_members (Suc n) s =
     (case s of
        [] \<Rightarrow> None
      | q # qs \<Rightarrow>
          if q \<noteq> 34 then None
          else
            (case parse_string_body qs of
               None \<Rightarrow> None
             | Some (key, r0) \<Rightarrow>
                 (case skip_ws r0 of
                    [] \<Rightarrow> None
                  | col # r1 \<Rightarrow>
                      if col \<noteq> 58 then None
                      else
                        (case parse_value (Suc n) (skip_ws r1) of
                           None \<Rightarrow> None
                         | Some (v, r2) \<Rightarrow>
                             (case skip_ws r2 of
                                [] \<Rightarrow> None
                              | d # ds \<Rightarrow>
                                  if d = 125 then Some ([(key, v)], ds)
                                  else if d = 44 then
                                    (case parse_members n (skip_ws ds) of
                                       None \<Rightarrow> None
                                     | Some (kvs, r') \<Rightarrow> Some ((key, v) # kvs, r'))
                                  else None)))))"

definition JSON_parse :: "jstring \<Rightarrow> json option" where
  "JSON_parse s =
     (case parse_value (length s) (skip_ws s) of
        None \<Rightarrow> None
      | Some (v, r) \<Rightarrow> if skip_ws r = [] then Some v else None)"

text \<open>
  Truthiness of a parsed value. A number is falsy when it reads as zero: its digits are
  all zero, or it is so small that the nearest double is zero (at most \<open>2^-1075\<close>).
\<close>

definition digits_value :: "jstring \<Rightarrow> nat" where
  "digits_value ds = foldl (\<lambda>a d. 10 * a + (d - 48)) 0 ds"

definition number_is_zero :: "jstring \<Rightarrow> bool" where
  "number_is_zero lexeme =
     (let body = (case lexeme of c # cs \<Rightarrow> if c = 45 then cs else lexeme | [] \<Rightarrow> lexeme);
          ip = takeWhile is_digit body;
          r1 = dropWhile is_digit body;
          fp = (case r1 of c # cs \<Rightarrow> if c = 46 then takeWhile is_digit cs else [] | [] \<Rightarrow> []);
          r2 = (case r1 of c # cs \<Rightarrow> if c = 46 then dropWhile is_digit cs else r1 | [] \<Rightarrow> r1);
          ex = (case r2 of
                  [] \<Rightarrow> (0::int)
                | e # es \<Rightarrow>
                    (case es of
                       [] \<Rightarrow> 0
                     | sg # ds \<Rightarrow>
                         if sg = 45 then - int (digits_value ds)
                         else if sg = 43 then int (digits_value ds)
                         else int (digits_value es)));
          mant = digits_value (ip @ fp);
          e10 = ex - int (length fp)
      in mant = 0 \<or> (e10 < 0 \<and> mant * 2 ^ 1075 \<le> 10 ^ nat (- e10)))"

fun json_truthy :: "json \<Rightarrow> bool" where
  "json_truthy JNull = False"
| "json_truthy (JBool b) = b"
| "json_truthy (JNum lexeme) = (\<not> number_is_zero lexeme)"
| "json_truthy (JStr s) = (s \<noteq> [])"
| "json_truthy (JArr xs) = True"
| "json_truthy (JObj kvs) = True"

text \<open>
  \<open>JSON.stringify\<close> of the metadata object of the chat route. \<open>QuoteJSONString\<close>
  escapes the quote, the backslash and the control characters, and writes a surrogate
  that has no partner as \<open>\uXXXX\<close>.
\<close>

record metadata =
  meta_suggestions :: "jstring list"
  meta_done :: bool
  meta_timestamp :: jstring
  meta_category :: jstring

definition hex_digit :: "nat \<Rightarrow> nat" where
  "hex_digit d = (if d < 10 then 48 + d else 87 + d)"

definition unicode_escape :: "nat \<Rightarrow> jstring" where
  "unicode_escape c =
     [92, 117, hex_digit (c div 4096 mod 16), hex_digit (c div 256 mod 16),
      hex_digit (c div 16 mod 16), hex_digit (c mod 16)]"

definition is_high_surrogate :: "nat \<Rightarrow> bool" where
  "is_high_surrogate c \<longleftrightarrow> 55296 \<le> c \<and> c \<le> 56319"

definition is_low_surrogate :: "nat \<Rightarrow> bool" where
  "is_low_surrogate c \<longleftrightarrow> 56320 \<le> c \<and> c \<le> 57343"

definition quote_unit :: "nat \<Rightarrow> jstring" where
  "quote_unit c =
     (if c = 8 then [92, 98]
      else if c = 9 then [92, 116]
      else if c = 10 then [92, 110]
      else if c = 12 then [92, 102]
      else if c = 13 then [92, 114]
      else if c = 34 then [92, 34]
      else if c = 92 then [92, 92]
      else if c < 32 then unicode_escape c
      else [c])"

fun quote_body :: "jstring \<Rightarrow> jstring" where
  "quote_body [] = []"
| "quote_body [c] =
     (if is_high_surrogate c \<or> is_low_surrogate c then unicode_escape c else quote_unit c)"
| "quote_body (c # d # r) =
     (if is_high_surrogate c then
        (if is_low_surrogate d then c # d # quote_body r
         else unicode_escape c @ quote_body (d # r))
      else if is_low_surrogate c then unicode_escape c @ quote_body (d # r)
      else quote_unit c @ quote_body (d # r))"

definition QuoteJSONString :: "jstring \<Rightarrow> jstring" where
  "QuoteJSONString s = [34] @ quote_body s @ [34]"

fun join_str :: "jstring \<Rightarrow> jstring list \<Rightarrow> jstring" where
  "join_str sep [] = []"
| "join_str sep [x] = x"
| "join_str sep (x # y # r) = x @ sep @ join_str sep (y # r)"

definition JSON_stringify_metadata :: "metadata \<Rightarrow> jstring" where
  \<open>JSON_stringify_metadata m =
     lit ''{"suggestions":['' @ join_str [44] (map QuoteJSONString (meta_suggestions m)) @
     lit ''],"done":'' @ (if meta_done m then lit ''true'' else lit ''false'') @
     lit '',"timestamp":'' @ QuoteJSONString (meta_timestamp m) @
     lit '',"category":'' @ QuoteJSONString (meta_category m) @ lit ''}''\<close>


section \<open>UTF-8: \<open>TextEncoder\<close> and \<open>TextDecoder\<close>\<close>

text \<open>
  \<open>encoder.encode(s)\<close> gives the UTF-8 bytes of the code points of \<open>s\<close>: a high
  surrogate followed by a low one is one code point above \<open>U+FFFF\<close>, and a surrogate
  without its partner is replaced by \<open>U+FFFD\<close> (65533), so that such a string is not
  forwarded as it is.
\<close>

type_synonym bytes = "nat list"

definition is_surrogate :: "nat \<Rightarrow> bool" where
  "is_surrogate c \<longleftrightarrow> is_high_surrogate c \<or> is_low_surrogate c"

fun code_points :: "jstring \<Rightarrow> nat list" where
  "code_points [] = []"
| "code_points [c] = (if is_surrogate c then [65533] else [c])"
| "code_points (c # d # r) =
     (if is_high_surrogate c then
        (if is_low_surrogate d
         then (65536 + (c - 55296) * 1024 + (d - 56320)) # code_points r
         else 65533 # code_points (d # r))
      else if is_low_surrogate c then 65533 # code_points (d # r)
      else c # code_points (d # r))"

definition utf8_bytes :: "nat \<Rightarrow> bytes" where
  "utf8_bytes cp =
     (if cp < 128 then [cp]
      else if cp < 2048 then [192 + cp div 64, 128 + cp mod 64]
      else if cp < 65536 then [224 + cp div 4096, 128 + cp div 64 mod 64, 128 + cp mod 64]
      else [240 + cp div 262144, 128 + cp div 4096 mod 64, 128 + cp div 64 mod 64,
            128 + cp mod 64])"

definition TextEncoder_encode :: "jstring \<Rightarrow> bytes" where
  "TextEncoder_encode s = concat (map utf8_bytes (code_points s))"

text \<open>
  The reading of UTF-8 bytes, as \<open>TextDecoder\<close> does it on the bytes of an encoder:
  the code points, and then their UTF-16 code units. \<open>None\<close> stands for a byte that
  does not fit (where the decoder would substitute \<open>U+FFFD\<close>); the encoder never
  produces one. A string is well formed when its code units are below \<open>2^16\<close> and its
  surrogates come in pairs.
\<close>

definition is_continuation :: "nat \<Rightarrow> bool" where
  "is_continuation b \<longleftrightarrow> 128 \<le> b \<and> b < 192"

definition cons_opt :: "'a \<Rightarrow> 'a list option \<Rightarrow> 'a list option" where
  "cons_opt x r = (case r of None \<Rightarrow> None | Some xs \<Rightarrow> Some (x # xs))"

fun utf8_decode :: "bytes \<Rightarrow> nat list option" where
  "utf8_decode [] = Some []"
| "utf8_decode (b # bs) =
     (if b < 128 then cons_opt b (utf8_decode bs)
      else if 192 \<le> b \<and> b < 224 then
        (case bs of
           b1 # r \<Rightarrow>
             if is_continuation b1
             then cons_opt ((b - 192) * 64 + (b1 - 128)) (utf8_decode r)
             else None
         | _ \<Rightarrow> None)
      else if 224 \<le> b \<and> b < 240 then
        (case bs of
           b1 # b2 # r \<Rightarrow>
             if is_continuation b1 \<and> is_continuation b2
             then cons_opt ((b - 224) * 4096 + (b1 - 128) * 64 + (b2 - 128)) (utf8_decode r)
             else None
         | _ \<Rightarrow> None)
      else if 240 \<le> b \<and> b < 248 then
        (case bs of
           b1 # b2 # b3 # r \<Rightarrow>
             if is_continuation b1 \<and> is_continuation b2 \<and> is_continuation b3
             then cons_opt ((b - 240) * 262144 + (b1 - 128) * 4096 + (b2 - 128) * 64 + (b3 - 128))
                    (utf8_decode r)
             else None
         | _ \<Rightarrow> None)
      else None)"

definition utf16_units :: "nat \<Rightarrow> jstring" where
  "utf16_units cp =
     (if cp < 65536 then [cp]
      else [55296 + (cp - 65536) div 1024, 56320 + (cp - 65536) mod 1024])"

definition decoded_text :: "bytes \<Rightarrow> jstring option" where
  "decoded_text bs =
     (case utf8_decode bs of None \<Rightarrow> None | Some cps \<Rightarrow> Some (concat (map utf16_units cps)))"

fun well_formed :: "jstring \<Rightarrow> bool" where
  "well_formed [] = True"
| "well_formed [c] = (c < 65536 \<and> \<not> is_surrogate c)"
| "well_formed (c # d # r) =
     (if is_high_surrogate c then is_low_surrogate d \<and> well_formed r
      else c < 65536 \<and> \<not> is_low_surrogate c \<and> well_formed (d # r))"


section \<open>The chat route: suggestions and the stream relay\<close>

text \<open>
  The suggestions come from
  \<open>/\*\*Follow-up Questions?:\*\*([\s\S]*?)(?=\n\n##|$)/i\<close>. The heading is matched
  without regard to the case of ASCII letters (a pattern of ASCII characters matches no
  other letters), with the optional \<open>s\<close> tried first. The group is lazy: it stops at the
  first position followed by two line feeds and \<open>##\<close>, or at the end of the text.
  \<open>suggestionPattern_match\<close> returns the group of the leftmost match.
\<close>

definition upper_ascii :: "nat \<Rightarrow> nat" where
  "upper_ascii c = (if 97 \<le> c \<and> c \<le> 122 then c - 32 else c)"

definition starts_with_ci :: "jstring \<Rightarrow> jstring \<Rightarrow> bool" where
  "starts_with_ci pat s \<longleftrightarrow>
     length pat \<le> length s \<and> map upper_ascii (take (length pat) s) = map upper_ascii pat"

definition match_lit_ci :: "jstring \<Rightarrow> jstring \<Rightarrow> jstring option" where
  "match_lit_ci pat s = (if starts_with_ci pat s then Some (drop (length pat) s) else None)"

definition match_heading_at :: "jstring \<Rightarrow> jstring option" where
  "match_heading_at s =
     (case match_lit_ci (lit ''**Follow-up Question'') s of
        None \<Rightarrow> None
      | Some r \<Rightarrow>
          (case (case match_lit_ci (lit ''s'') r of
                   None \<Rightarrow> None
                 | Some r' \<Rightarrow> match_lit_ci (lit '':**'') r') of
             Some rest \<Rightarrow> Some rest
           | None \<Rightarrow> match_lit_ci (lit '':**'') r))"

fun lazy_capture :: "jstring \<Rightarrow> jstring" where
  "lazy_capture [] = []"
| "lazy_capture (c # cs) =
     (if prefix [10, 10, 35, 35] (c # cs) then [] else c # lazy_capture cs)"

fun suggestionPattern_match :: "jstring \<Rightarrow> jstring option" where
  "suggestionPattern_match [] = None"
| "suggestionPattern_match (c # cs) =
     (case match_heading_at (c # cs) of
        Some rest \<Rightarrow> Some (lazy_capture rest)
      | None \<Rightarrow> suggestionPattern_match cs)"

text \<open>
  Each line of the group is trimmed and loses a leading bullet (\<open>/^[\<bullet>\-\*]\s*/\<close>, the
  bullet being U+2022); the lines longer than 10 and shorter than 150 are kept.
\<close>

definition trim :: "jstring \<Rightarrow> jstring" where
  "trim s = rev (dropWhile is_space (rev (dropWhile is_space s)))"

definition strip_bullet :: "jstring \<Rightarrow> jstring" where
  "strip_bullet s =
     (case s of
        [] \<Rightarrow> []
      | c # r \<Rightarrow> if c = 8226 \<or> c = 45 \<or> c = 42 then dropWhile is_space r else s)"

definition candidate_lines :: "jstring \<Rightarrow> jstring list" where
  "candidate_lines section = map (\<lambda>line. strip_bullet (trim line)) (split_str [10] section)"

definition extract_suggestions :: "jstring \<Rightarrow> jstring list" where
  "extract_suggestions fullText =
     (case suggestionPattern_match fullText of
        None \<Rightarrow> []
      | Some g \<Rightarrow>
          if g = [] then []
          else filter (\<lambda>line. length line > 10 \<and> length line < 150) (candidate_lines g))"

text \<open>
  The relay is the \<open>start\<close> callback of the \<open>ReadableStream\<close>. Its controller is
  modelled by what was enqueued and the state of the stream; enqueueing or closing a
  stream that is not readable throws. The upstream is the list of what the iteration
  yields: chunk texts, or \<open>Raise\<close> where the iterator (or \<open>chunk.text()\<close>) throws; a
  list without \<open>Raise\<close> completes normally. What is enqueued is bytes: each chunk text
  and the final segment go through \<open>encoder.encode\<close>, while \<open>fullText\<close> accumulates
  the texts themselves. \<open>now\<close> is \<open>new Date().toISOString()\<close> and \<open>cat\<close> the
  \<open>category\<close> of the request body, absent or a string.
\<close>

datatype stream_state = Readable | Closed | Errored

datatype js_error = TypeError | UpstreamFailure

record controller =
  queue :: "bytes list"
  cstate :: stream_state

definition enqueue :: "controller \<Rightarrow> bytes \<Rightarrow> js_error + controller" where
  "enqueue c x =
     (if cstate c = Readable then Inr (c\<lparr>queue := queue c @ [x]\<rparr>) else Inl TypeError)"

definition close_controller :: "controller \<Rightarrow> js_error + controller" where
  "close_controller c =
     (if cstate c = Readable then Inr (c\<lparr>cstate := Closed\<rparr>) else Inl TypeError)"

definition error_controller :: "controller \<Rightarrow> controller" where
  "error_controller c = (if cstate c = Readable then c\<lparr>cstate := Errored\<rparr> else c)"

datatype upstream_event = Text jstring | Raise

record relay_state =
  fullText :: jstring
  chunkCount :: nat
  ctrl :: controller

fun pump :: "upstream_event list \<Rightarrow> relay_state \<Rightarrow> js_error option \<times> relay_state" where
  "pump [] st = (None, st)"
| "pump (Raise # rest) st = (Some UpstreamFailure, st)"
| "pump (Text chunkText # rest) st =
     (let st1 = st\<lparr>chunkCount := chunkCount st + 1, fullText := fullText st @ chunkText\<rparr>
      in case enqueue (ctrl st1) (TextEncoder_encode chunkText) of
           Inl e \<Rightarrow> (Some e, st1)
         | Inr c \<Rightarrow> pump rest (st1\<lparr>ctrl := c\<rparr>))"

definition SENTINEL :: jstring where
  "SENTINEL = lit ''\<newline>___METADATA___\<newline>''"

definition category_or_general :: "jstring option \<Rightarrow> jstring" where
  "category_or_general c =
     (case c of None \<Rightarrow> lit ''general'' | Some v \<Rightarrow> if v = [] then lit ''general'' else v)"

definition relay_metadata :: "jstring \<Rightarrow> jstring option \<Rightarrow> jstring \<Rightarrow> metadata" where
  "relay_metadata now cat txt =
     \<lparr>meta_suggestions = extract_suggestions txt, meta_done = True,
      meta_timestamp = now, meta_category = category_or_general cat\<rparr>"

definition start :: "jstring \<Rightarrow> jstring option \<Rightarrow> upstream_event list \<Rightarrow> controller \<Rightarrow> controller" where
  "start now cat upstream c0 =
     (case pump upstream \<lparr>fullText = [], chunkCount = 0, ctrl = c0\<rparr> of
        (Some e, st) \<Rightarrow> error_controller (ctrl st)
      | (None, st) \<Rightarrow>
          (case enqueue (ctrl st)
                  (TextEncoder_encode
                     (SENTINEL @ JSON_stringify_metadata (relay_metadata now cat (fullText st)))) of
             Inl e \<Rightarrow> error_controller (ctrl st)
           | Inr c1 \<Rightarrow>
               (case close_controller c1 of
                  Inl e \<Rightarrow> error_controller c1
                | Inr c2 \<Rightarrow> c2)))"

text \<open>
  An answer in two chunks, with a letter outside ASCII and a follow-up section whose
  heading is cut by the chunk boundary.
\<close>

definition answer_chunks :: "jstring list" where
  "answer_chunks =
     [lit ''Caf'' @ [233] @ lit '' and rest.\<newline>**Follow-up Ques'',
      lit ''tions:**\<newline>- How long does the flu last?'']"

text \<open>An answer whose follow-up section has five questions.\<close>

definition five_questions :: jstring where
  "five_questions = lit
     ''**Follow-up Questions:**\<newline>- How long does the flu last?\<newline>- When should I see a doctor?\<newline>- Is the flu contagious now?\<newline>- What medicine can I take?\<newline>- Can I go to work with flu?''"


section \<open>The chat widget: \<open>handleSubmit\<close>\<close>

text \<open>
  The component state is a record; each \<open>setX\<close> call is a record update, applied in
  program order. What the environment supplies during one call is gathered in
  \<open>submit_env\<close>: the clock readings behind the ids and time stamps, and the outcome of
  \<open>fetch\<close>, which rejects or gives a response whose body is read as a list of events
  (a decoded chunk together with the clock reading of the throttle test, or a rejected
  read); the end of the list is \<open>done\<close>, and a response without a body is the empty
  list.
\<close>

datatype sender = SenderUser | SenderAi

record Message =
  msg_id :: jstring
  message :: jstring
  sender :: sender
  timestamp :: jstring
  streaming :: "bool option"
  status :: "jstring option"

datatype role = RoleUser | RoleAssistant

record ConversationMessage =
  role :: role
  content :: jstring

record chat_state =
  messages :: "Message list"
  inputMessage :: jstring
  isLoading :: bool
  suggestions :: json
  streamingMessage :: jstring
  conversationHistory :: "ConversationMessage list"

datatype exn = AbortError | OtherError

datatype read_event = Chunk jstring nat | ReadRejected exn

datatype fetch_result = FetchRejected exn | Response bool "read_event list"

record submit_env =
  userNow :: nat
  userStamp :: jstring
  response :: fetch_result
  aiNow :: nat
  aiStamp :: jstring
  loopStart :: nat
  errorNow :: nat
  errorStamp :: jstring

definition MARKER :: jstring where
  "MARKER = lit ''___METADATA___''"

definition UPDATE_INTERVAL :: nat where
  "UPDATE_INTERVAL = 50"

text \<open>
  \<open>metadata.suggestions\<close>: reading a property of \<open>null\<close> throws, an object gives the
  value of its last such key, every other value gives \<open>undefined\<close>. \<open>apply_metadata\<close>
  is the inner \<open>try\<close> block, whose \<open>catch\<close> only logs.
\<close>

definition get_suggestions :: "json \<Rightarrow> exn + json option" where
  "get_suggestions md =
     (case md of
        JNull \<Rightarrow> Inl OtherError
      | JObj kvs \<Rightarrow> Inr (map_of (rev kvs) (lit ''suggestions''))
      | _ \<Rightarrow> Inr None)"

definition apply_metadata :: "jstring option \<Rightarrow> chat_state \<Rightarrow> chat_state" where
  "apply_metadata metadataPart st =
     (case metadataPart of
        None \<Rightarrow> st
      | Some mp \<Rightarrow>
          (case JSON_parse mp of
             None \<Rightarrow> st
           | Some md \<Rightarrow>
               (case get_suggestions md of
                  Inl e \<Rightarrow> st
                | Inr None \<Rightarrow> st
                | Inr (Some v) \<Rightarrow> if json_truthy v then st\<lparr>suggestions := v\<rparr> else st)))"

text \<open>
  The \<open>while (true)\<close> loop over the reader: it ends at \<open>done\<close>, at the first chunk
  after which the accumulated text includes the marker, or with the exception of a
  rejected read. \<open>first_part\<close> and \<open>second_part\<close> are the destructuring
  \<open>[textPart, metadataPart] = parts\<close>; where the marker is included the split has at
  least two parts (\<open>split_str_includes\<close> below), so both are defined.
\<close>

definition first_part :: "jstring list \<Rightarrow> jstring" where
  "first_part parts = (case parts of [] \<Rightarrow> [] | a # _ \<Rightarrow> a)"

definition second_part :: "jstring list \<Rightarrow> jstring option" where
  "second_part parts = (case parts of a # b # _ \<Rightarrow> Some b | _ \<Rightarrow> None)"

record loop_state =
  chunks :: "jstring list"
  lastUpdateTime :: nat
  ui :: chat_state

fun read_loop :: "read_event list \<Rightarrow> loop_state \<Rightarrow> exn option \<times> loop_state" where
  "read_loop [] ls = (None, ls)"
| "read_loop (ReadRejected e # rest) ls = (Some e, ls)"
| "read_loop (Chunk chunk now # rest) ls =
     (let ls1 = ls\<lparr>chunks := chunks ls @ [chunk]\<rparr>;
          accumulatedText = concat (chunks ls1)
      in if includes_str accumulatedText MARKER then
           (let parts = split_str MARKER accumulatedText;
                textPart = first_part parts;
                metadataPart = second_part parts;
                st1 = (ui ls1)\<lparr>streamingMessage := textPart\<rparr>
            in (None, ls1\<lparr>ui := apply_metadata metadataPart st1\<rparr>))
         else if now - lastUpdateTime ls1 \<ge> UPDATE_INTERVAL then
           read_loop rest
             (ls1\<lparr>ui := (ui ls1)\<lparr>streamingMessage := accumulatedText\<rparr>, lastUpdateTime := now\<rparr>)
         else read_loop rest ls1)"

text \<open>
  What the loop leaves on display while the marker has not come: \<open>throttle\<close> follows
  \<open>lastUpdateTime\<close> and the streaming text over the chunks read, the text accumulated
  so far being shown at each chunk that comes at least \<open>UPDATE_INTERVAL\<close> after the last
  update. \<open>displayed\<close> is the streaming text after the chunks \<open>cs\<close> of a body whose
  reading started at \<open>start_time\<close> with \<open>shown\<close> on display.
\<close>

fun throttle :: "(jstring \<times> nat) list \<Rightarrow> jstring \<Rightarrow> nat \<times> jstring \<Rightarrow> nat \<times> jstring" where
  "throttle [] acc s = s"
| "throttle ((c, now) # rest) acc (last_time, shown) =
     (if now - last_time \<ge> UPDATE_INTERVAL then throttle rest (acc @ c) (now, acc @ c)
      else throttle rest (acc @ c) (last_time, shown))"

definition displayed :: "(jstring \<times> nat) list \<Rightarrow> nat \<Rightarrow> jstring \<Rightarrow> jstring" where
  "displayed cs start_time shown = snd (throttle cs [] (start_time, shown))"

text \<open>The \<open>catch\<close> and \<open>finally\<close> blocks, and the whole handler.\<close>

definition finally_block :: "chat_state \<Rightarrow> chat_state" where
  "finally_block st = st\<lparr>isLoading := False\<rparr>"

definition errorMessage :: "submit_env \<Rightarrow> Message" where
  "errorMessage env =
     \<lparr>msg_id = lit ''error-'' @ String_num (errorNow env),
      message = lit ''Sorry, something went wrong. Please try again.'',
      sender = SenderAi,
      timestamp = errorStamp env,
      streaming = None,
      status = Some (lit ''error'')\<rparr>"

definition catch_block :: "submit_env \<Rightarrow> exn \<Rightarrow> chat_state \<Rightarrow> chat_state" where
  "catch_block env e st =
     (if e = AbortError then finally_block st
      else finally_block (st\<lparr>messages := messages st @ [errorMessage env]\<rparr>))"

definition userMessage :: "submit_env \<Rightarrow> jstring \<Rightarrow> Message" where
  "userMessage env messageText =
     \<lparr>msg_id = lit ''user-'' @ String_num (userNow env),
      message = messageText,
      sender = SenderUser,
      timestamp = userStamp env,
      streaming = None,
      status = None\<rparr>"

definition aiMessageId :: "submit_env \<Rightarrow> jstring" where
  "aiMessageId env = lit ''ai-'' @ String_num (aiNow env)"

definition aiPlaceholder :: "submit_env \<Rightarrow> Message" where
  "aiPlaceholder env =
     \<lparr>msg_id = aiMessageId env,
      message = [],
      sender = SenderAi,
      timestamp = aiStamp env,
      streaming = Some True,
      status = None\<rparr>"

definition finalize_message :: "jstring \<Rightarrow> jstring \<Rightarrow> Message \<Rightarrow> Message" where
  "finalize_message mid finalText msg =
     (if msg_id msg = mid then msg\<lparr>message := finalText, streaming := Some False\<rparr>
      else msg)"

definition userTurn :: "jstring \<Rightarrow> ConversationMessage" where
  "userTurn messageText = \<lparr>role = RoleUser, content = messageText\<rparr>"

definition assistantTurn :: "jstring \<Rightarrow> ConversationMessage" where
  "assistantTurn finalText = \<lparr>role = RoleAssistant, content = finalText\<rparr>"

text \<open>\<open>chunks.join("").split("___METADATA___")[0]\<close>; the split is never empty.\<close>

definition finalText_of :: "jstring list \<Rightarrow> jstring" where
  "finalText_of cs = first_part (split_str MARKER (concat cs))"

definition handleSubmit :: "submit_env \<Rightarrow> chat_state \<Rightarrow> chat_state" where
  "handleSubmit env st =
     (if trim (inputMessage st) = [] \<or> isLoading st then st
      else
        let messageText = trim (inputMessage st);
            st1 = st\<lparr>inputMessage := [], isLoading := True, suggestions := JArr []\<rparr>;
            st2 = st1\<lparr>messages := messages st1 @ [userMessage env messageText]\<rparr>;
            newHistory = slice_neg 10 (conversationHistory st @ [userTurn messageText]);
            st3 = st2\<lparr>conversationHistory := newHistory\<rparr>
        in case response env of
             FetchRejected e \<Rightarrow> catch_block env e st3
           | Response ok body \<Rightarrow>
               if \<not> ok then catch_block env OtherError st3
               else
                 let st4 = st3\<lparr>messages := messages st3 @ [aiPlaceholder env]\<rparr>
                 in (case read_loop body
                            \<lparr>chunks = [], lastUpdateTime = loopStart env, ui = st4\<rparr> of
                       (Some e, ls) \<Rightarrow> catch_block env e (ui ls)
                     | (None, ls) \<Rightarrow>
                         let finalText = finalText_of (chunks ls);
                             st5 = (ui ls)\<lparr>messages :=
                                      map (finalize_message (aiMessageId env) finalText)
                                        (messages (ui ls))\<rparr>;
                             st6 = st5\<lparr>streamingMessage := []\<rparr>;
                             st7 = st6\<lparr>conversationHistory := slice_neg 10
                                      (conversationHistory st6 @ [assistantTurn finalText])\<rparr>
                         in finally_block st7))"

text \<open>
  The state right after the synchronous part of an accepted submission (input cleared,
  loading, suggestions reset, user message and user turn recorded), and the state in
  which the reading of the body starts.
\<close>

definition after_submission :: "submit_env \<Rightarrow> chat_state \<Rightarrow> chat_state" where
  "after_submission env st =
     st\<lparr>inputMessage := [], isLoading := True, suggestions := JArr [],
        messages := messages st @ [userMessage env (trim (inputMessage st))],
        conversationHistory :=
          slice_neg 10 (conversationHistory st @ [userTurn (trim (inputMessage st))])\<rparr>"

definition loop_start :: "submit_env \<Rightarrow> chat_state \<Rightarrow> loop_state" where
  "loop_start env st =
     \<lparr>chunks = [], lastUpdateTime = loopStart env,
      ui = (after_submission env st)
             \<lparr>messages := messages (after_submission env st) @ [aiPlaceholder env]\<rparr>\<rparr>"

text \<open>
  The state of a freshly mounted component, and a session: the user types a text and
  submits it, one submission after the other, each in its own environment.
\<close>

definition init_state :: chat_state where
  "init_state =
     \<lparr>messages = [], inputMessage = [], isLoading = False, suggestions = JArr [],
      streamingMessage = [], conversationHistory = []\<rparr>"

fun run_submits :: "chat_state \<Rightarrow> (jstring \<times> submit_env) list \<Rightarrow> chat_state" where
  "run_submits st [] = st"
| "run_submits st ((txt, env) # rest) =
     run_submits (handleSubmit env (st\<lparr>inputMessage := txt\<rparr>)) rest"

text \<open>
  The turns of a session as the specification counts them: the user turn on submission,
  the assistant turn on finalization, nothing for a submission that is refused.
\<close>

definition appended_turns :: "submit_env \<Rightarrow> chat_state \<Rightarrow> ConversationMessage list" where
  "appended_turns env st =
     (if trim (inputMessage st) = [] \<or> isLoading st then []
      else
        userTurn (trim (inputMessage st)) #
        (case response env of
           FetchRejected e \<Rightarrow> []
         | Response ok body \<Rightarrow>
             if \<not> ok then []
             else
               (case read_loop body \<lparr>chunks = [], lastUpdateTime = loopStart env, ui = st\<rparr> of
                  (Some e, ls) \<Rightarrow> []
                | (None, ls) \<Rightarrow> [assistantTurn (finalText_of (chunks ls))])))"

fun turn_log :: "chat_state \<Rightarrow> (jstring \<times> submit_env) list \<Rightarrow> ConversationMessage list" where
  "turn_log st [] = []"
| "turn_log st ((txt, env) # rest) =
     appended_turns env (st\<lparr>inputMessage := txt\<rparr>) @
     turn_log (handleSubmit env (st\<lparr>inputMessage := txt\<rparr>)) rest"

text \<open>The scenario of the specification: the relayed chunks of one answer.\<close>

definition scenario_chunks :: "read_event list" where
  \<open>scenario_chunks =
     [Chunk (lit ''## Flu\<newline>'') 1010,
      Chunk (lit ''**Fever**\<newline>'') 1020,
      Chunk (lit ''\<newline>___METADATA___\<newline>'') 1030,
      Chunk (lit ''{"suggestions":["How long does it last?"],"done":true}'') 1040]\<close>

definition scenario_env :: "read_event list \<Rightarrow> submit_env" where
  "scenario_env body =
     \<lparr>userNow = 1000, userStamp = lit ''2025-01-01T00:00:01.000Z'',
      response = Response True body,
      aiNow = 1005, aiStamp = lit ''2025-01-01T00:00:01.005Z'', loopStart = 1005,
      errorNow = 2000, errorStamp = lit ''2025-01-01T00:00:02.000Z''\<rparr>"

definition scenario_state :: chat_state where
  "scenario_state = init_state\<lparr>inputMessage := lit ''What are the symptoms of flu?''\<rparr>"

text \<open>Auxiliary notions of the proofs: reading decimal digits back, and the invariant
  of the store (no numeric key beyond the counter, none in an installed prototype).\<close>

definition undigits10 :: "nat list \<Rightarrow> nat" where
  "undigits10 ds = foldl (\<lambda>a d. 10 * a + d) 0 ds"

definition store_inv :: "store \<Rightarrow> bool" where
  "store_inv s \<longleftrightarrow>
     (\<forall>n. diagnosesCounter s < n \<longrightarrow> diagnoses s (String_num n) = None) \<and>
     (\<forall>p n. diagnoses_proto s = Some p \<longrightarrow> p (String_num n) = None)"

text \<open>
  More bodies for the same submission: the scenario as the relay sends it, the sentinel
  and the JSON in one segment; a sentinel followed by text that is not JSON; a sentinel
  followed by a JSON text and a second marker; and a read that is cancelled after two
  chunks, the first of which came late enough to be shown.
\<close>

definition relayed_chunks :: "read_event list" where
  \<open>relayed_chunks =
     [Chunk (lit ''## Flu\<newline>'') 1010,
      Chunk (lit ''**Fever**\<newline>'') 1020,
      Chunk (lit ''\<newline>___METADATA___\<newline>{"suggestions":["How long does it last?"],"done":true}'') 1030]\<close>

definition bad_json_chunks :: "read_event list" where
  "bad_json_chunks =
     [Chunk (lit ''Rest.'') 1010, Chunk (lit ''\<newline>___METADATA___\<newline>{oops'') 1020]"

definition injected_chunks :: "read_event list" where
  \<open>injected_chunks =
     [Chunk (lit ''Rest.'') 1010,
      Chunk (lit ''\<newline>___METADATA___\<newline>{"suggestions":["Injected question?"]}___METADATA___'') 1020]\<close>

definition cancelled_env :: submit_env where
  "cancelled_env =
     scenario_env [Chunk (lit ''## Flu\<newline>'') 1060, Chunk (lit ''**Fever**\<newline>'') 1070,
                   ReadRejected AbortError]"

text \<open>
  A session of five answered questions, each answered by the relayed scenario, the two
  turns that each of them records, and the state the session ends in.
\<close>

definition five_answers :: "(jstring \<times> submit_env) list" where
  "five_answers = replicate 5 (lit ''What are the symptoms of flu?'', scenario_env relayed_chunks)"

definition flu_turns :: "ConversationMessage list" where
  "flu_turns =
     [\<lparr>role = RoleUser, content = lit ''What are the symptoms of flu?''\<rparr>,
      \<lparr>role = RoleAssistant, content = lit ''## Flu\<newline>**Fever**\<newline>\<newline>''\<rparr>]"

definition busy_state :: chat_state where
  "busy_state = run_submits init_state five_answers"


section \<open>Properties of the string functions and of the field extraction\<close>

declare digits10.simps [simp del]
declare split_str.simps [simp del]

lemma slice_neg_length: "length (slice_neg k xs) = min k (length xs)"
  by (simp add: slice_neg_def)

lemma run_split:
  assumes "\<forall>c \<in> set xs. P c" and "ys = [] \<or> \<not> P (hd ys)"
  shows "takeWhile P (xs @ ys) = xs" and "dropWhile P (xs @ ys) = ys"
  using assms by (induction xs) (cases ys; auto)+

lemma not_digit_facts: "\<not> is_digit 46" "\<not> is_digit 37" "is_space c \<Longrightarrow> \<not> is_digit c"
  by (auto simp: is_digit_def is_space_def)

lemma not_space_facts: "\<not> is_space 37" "is_space c \<Longrightarrow> c \<noteq> 46" "is_space c \<Longrightarrow> c \<noteq> 37"
  by (auto simp: is_space_def)

lemma match_percent_at_sound:
  assumes "match_percent_at s = Some w"
  shows "pct_token w \<and> prefix w s"
proof -
  define ds where "ds = takeWhile is_digit s"
  define r1 where "r1 = dropWhile is_digit s"
  define fr where "fr = fst (match_fraction r1)"
  define r2 where "r2 = snd (match_fraction r1)"
  define ws where "ws = takeWhile is_space r2"
  define r3 where "r3 = dropWhile is_space r2"
  have s: "s = ds @ r1" by (simp add: ds_def r1_def)
  have r2s: "r2 = ws @ r3" by (simp add: ws_def r3_def)
  have frs: "r1 = fr @ r2"
    by (auto simp: fr_def r2_def match_fraction_def split: list.splits)
  have frshape: "fr = [] \<or> (\<exists>fs. fr = 46 # fs \<and> fs \<noteq> [] \<and> (\<forall>c \<in> set fs. is_digit c))"
    by (auto simp: fr_def match_fraction_def split: list.splits dest: set_takeWhileD)
  from assms have nz: "ds \<noteq> []" and r3: "\<exists>rest. r3 = 37 # rest" and w: "w = ds @ fr @ ws @ [37]"
    by (auto simp: match_percent_at_def Let_def ds_def r1_def fr_def r2_def ws_def r3_def
        split: if_splits list.splits prod.splits)
  have dig: "\<forall>c \<in> set ds. is_digit c" by (auto simp: ds_def dest: set_takeWhileD)
  have sp: "\<forall>c \<in> set ws. is_space c" by (auto simp: ws_def dest: set_takeWhileD)
  have "pct_token w"
    unfolding pct_token_def using w nz dig sp frshape by blast
  moreover from r3 obtain rest where "r3 = 37 # rest" by blast
  then have "s = w @ rest" using s frs r2s w by simp
  ultimately show ?thesis by (auto simp: prefix_def)
qed

lemma match_percent_at_complete:
  assumes "pct_token w" and "prefix w s"
  shows "match_percent_at s = Some w"
proof -
  from assms(1) obtain ds fr ws where w: "w = ds @ fr @ ws @ [37]" and nz: "ds \<noteq> []"
    and dig: "\<forall>c \<in> set ds. is_digit c"
    and fr: "fr = [] \<or> (\<exists>fs. fr = 46 # fs \<and> fs \<noteq> [] \<and> (\<forall>c \<in> set fs. is_digit c))"
    and sp: "\<forall>c \<in> set ws. is_space c"
    unfolding pct_token_def by blast
  from assms(2) obtain rest where s: "s = w @ rest" by (auto simp: prefix_def)
  have ws_run: "takeWhile is_space (ws @ 37 # rest) = ws" "dropWhile is_space (ws @ 37 # rest) = 37 # rest"
    using run_split[of ws is_space "37 # rest"] sp not_space_facts(1) by auto
  have hd_tail: "\<not> is_digit (hd (ws @ 37 # rest))" "hd (ws @ 37 # rest) \<noteq> 46"
    using sp not_digit_facts not_space_facts by (cases ws; auto)+
  have mf: "match_fraction (fr @ ws @ 37 # rest) = (fr, ws @ 37 # rest)"
  proof (cases "fr = []")
    case True
    then show ?thesis using hd_tail(2)
      by (cases "ws @ 37 # rest") (auto simp: match_fraction_def)
  next
    case False
    with fr obtain fs where f: "fr = 46 # fs" "fs \<noteq> []" "\<forall>c \<in> set fs. is_digit c" by blast
    have "takeWhile is_digit (fs @ ws @ 37 # rest) = fs" "dropWhile is_digit (fs @ ws @ 37 # rest) = ws @ 37 # rest"
      using run_split[of fs is_digit "ws @ 37 # rest"] f(3) hd_tail(1) by auto
    then show ?thesis using f by (simp add: match_fraction_def)
  qed
  have hd_fr: "\<not> is_digit (hd (fr @ ws @ 37 # rest))"
    using fr hd_tail(1) not_digit_facts(1) by (cases "fr = []") auto
  have dr: "takeWhile is_digit s = ds" "dropWhile is_digit s = fr @ ws @ 37 # rest"
    using run_split[of ds is_digit "fr @ ws @ 37 # rest"] dig hd_fr s w by auto
  show ?thesis
    using nz by (simp add: match_percent_at_def dr mf ws_run w)
qed

lemma match_percent_at_iff: "match_percent_at s = Some w \<longleftrightarrow> pct_token w \<and> prefix w s"
  using match_percent_at_sound match_percent_at_complete by blast

lemma pct_token_nonempty: "pct_token w \<Longrightarrow> w \<noteq> []"
  by (auto simp: pct_token_def)

lemma token_at_0: "token_at t 0 w \<longleftrightarrow> match_percent_at t = Some w"
  by (simp add: token_at_def match_percent_at_iff)

lemma token_at_Suc: "token_at (c # cs) (Suc i) w \<longleftrightarrow> token_at cs i w"
  by (simp add: token_at_def)

lemma token_at_Nil: "\<not> token_at [] i w"
  by (auto simp: token_at_def dest: pct_token_nonempty)

lemma search_percent_None: "search_percent t = None \<longleftrightarrow> (\<forall>i w. \<not> token_at t i w)"
proof (induction t)
  case Nil
  then show ?case by (simp add: token_at_Nil)
next
  case (Cons c cs)
  show ?case
  proof (cases "match_percent_at (c # cs)")
    case None
    have "(\<forall>i w. \<not> token_at (c # cs) i w) \<longleftrightarrow> (\<forall>i w. \<not> token_at cs i w)"
    proof
      assume a: "\<forall>i w. \<not> token_at (c # cs) i w"
      show "\<forall>i w. \<not> token_at cs i w"
        using a token_at_Suc by blast
    next
      assume a: "\<forall>i w. \<not> token_at cs i w"
      show "\<forall>i w. \<not> token_at (c # cs) i w"
      proof (intro allI)
        fix i w show "\<not> token_at (c # cs) i w"
          using a None by (cases i) (auto simp: token_at_0 token_at_Suc)
      qed
    qed
    with None Cons show ?thesis by simp
  next
    case (Some w)
    then have "token_at (c # cs) 0 w" by (simp add: token_at_0)
    with Some show ?thesis by auto
  qed
qed

lemma search_percent_Some:
  "search_percent t = Some w \<longleftrightarrow>
     (\<exists>i. token_at t i w \<and> (\<forall>j < i. \<forall>w'. \<not> token_at t j w'))"
proof (induction t)
  case Nil
  then show ?case by (simp add: token_at_Nil)
next
  case (Cons c cs)
  show ?case
  proof (cases "match_percent_at (c # cs)")
    case None
    have "(\<exists>i. token_at (c # cs) i w \<and> (\<forall>j < i. \<forall>w'. \<not> token_at (c # cs) j w'))
          \<longleftrightarrow> (\<exists>i. token_at cs i w \<and> (\<forall>j < i. \<forall>w'. \<not> token_at cs j w'))" (is "?L \<longleftrightarrow> ?R")
    proof
      assume ?L
      then obtain i where i: "token_at (c # cs) i w" "\<forall>j < i. \<forall>w'. \<not> token_at (c # cs) j w'" by blast
      from i(1) None obtain k where k: "i = Suc k" by (cases i) (auto simp: token_at_0)
      have "token_at cs k w" using i(1) k by (simp add: token_at_Suc)
      moreover have "\<forall>j < k. \<forall>w'. \<not> token_at cs j w'"
      proof (intro allI impI)
        fix j w' assume "j < k"
        then have "Suc j < i" using k by simp
        then have "\<not> token_at (c # cs) (Suc j) w'" using i(2) by blast
        then show "\<not> token_at cs j w'" by (simp add: token_at_Suc)
      qed
      ultimately show ?R by blast
    next
      assume ?R
      then obtain k where k: "token_at cs k w" "\<forall>j < k. \<forall>w'. \<not> token_at cs j w'" by blast
      have "token_at (c # cs) (Suc k) w" using k(1) by (simp add: token_at_Suc)
      moreover have "\<forall>j < Suc k. \<forall>w'. \<not> token_at (c # cs) j w'"
      proof (intro allI impI)
        fix j w' assume "j < Suc k"
        then show "\<not> token_at (c # cs) j w'"
          using k(2) None by (cases j) (auto simp: token_at_0 token_at_Suc)
      qed
      ultimately show ?L by blast
    qed
    with None Cons show ?thesis by simp
  next
    case (Some v)
    have "(\<exists>i. token_at (c # cs) i w \<and> (\<forall>j < i. \<forall>w'. \<not> token_at (c # cs) j w')) \<longleftrightarrow> v = w"
    proof
      assume "\<exists>i. token_at (c # cs) i w \<and> (\<forall>j < i. \<forall>w'. \<not> token_at (c # cs) j w')"
      then obtain i where i: "token_at (c # cs) i w" "\<forall>j < i. \<forall>w'. \<not> token_at (c # cs) j w'" by blast
      have "token_at (c # cs) 0 v" using Some by (simp add: token_at_0)
      with i(2) have "i = 0" by (cases i) auto
      with i(1) Some show "v = w" by (simp add: token_at_0)
    next
      assume "v = w"
      with Some have "token_at (c # cs) 0 w" by (simp add: token_at_0)
      then show "\<exists>i. token_at (c # cs) i w \<and> (\<forall>j < i. \<forall>w'. \<not> token_at (c # cs) j w')" by auto
    qed
    with Some show ?thesis by simp
  qed
qed

lemma pct_token_chars:
  assumes "pct_token w" and "c \<in> set w"
  shows "is_digit c \<or> is_space c \<or> c = 46 \<or> c = 37"
  using assms unfolding pct_token_def by auto

lemma prefix_before_stop:
  assumes "prefix w (xs @ x # ys)" and "x \<notin> set w"
  shows "prefix w xs"
proof -
  from assms(1) have "prefix w xs \<or> (\<exists>us. w = xs @ us \<and> prefix us (x # ys))"
    by (simp add: prefix_append)
  then show ?thesis
  proof
    assume "\<exists>us. w = xs @ us \<and> prefix us (x # ys)"
    then obtain us where us: "w = xs @ us" "prefix us (x # ys)" by blast
    with assms(2) have "us = []" by (cases us) auto
    with us show ?thesis by simp
  qed simp
qed

lemma search_percent_skip:
  assumes "\<forall>i w. \<not> token_at pre i w"
    and "\<not> is_digit x" "\<not> is_space x" "x \<noteq> 46" "x \<noteq> 37"
  shows "search_percent (pre @ x # ys) = search_percent (x # ys)"
  using assms(1)
proof (induction pre)
  case Nil
  then show ?case by simp
next
  case (Cons c cs)
  have "match_percent_at ((c # cs) @ x # ys) = None"
  proof (rule ccontr)
    assume "match_percent_at ((c # cs) @ x # ys) \<noteq> None"
    then obtain w where w: "match_percent_at ((c # cs) @ x # ys) = Some w" by auto
    then have tok: "pct_token w" and pre: "prefix w ((c # cs) @ x # ys)"
      by (simp_all add: match_percent_at_iff)
    have "x \<notin> set w" using pct_token_chars[OF tok, of x] assms(2-5) by blast
    with pre have "prefix w (c # cs)" by (rule prefix_before_stop)
    with tok have "token_at (c # cs) 0 w" by (simp add: token_at_def)
    with Cons.prems show False by blast
  qed
  moreover have "\<forall>i w. \<not> token_at cs i w"
    using Cons.prems token_at_Suc by blast
  ultimately show ?case using Cons.IH by simp
qed

lemma extractConfidence_87:
  assumes "\<forall>i w. \<not> token_at pre i w"
  shows "extractConfidence (pre @ lit ''diagnosis with 87% confidence'' @ post) = lit ''87%''"
proof -
  have "search_percent (pre @ 100 # (lit ''iagnosis with 87% confidence'' @ post))
        = search_percent (100 # (lit ''iagnosis with 87% confidence'' @ post))"
    using assms by (rule search_percent_skip) (simp_all add: is_digit_def is_space_def)
  moreover have "search_percent (100 # (lit ''iagnosis with 87% confidence'' @ post)) = Some (lit ''87%'')"
    by (simp add: match_percent_at_def match_fraction_def lit_def is_digit_def is_space_def)
  moreover have "pre @ lit ''diagnosis with 87% confidence'' @ post
      = pre @ 100 # (lit ''iagnosis with 87% confidence'' @ post)"
    by (simp add: lit_def)
  ultimately show ?thesis
    by (simp add: extractConfidence_def lit_def)
qed

lemma no_token_dots: "\<forall>i w. \<not> token_at (lit ''...'') i w"
proof -
  have "search_percent (lit ''...'') = None"
    by (simp add: match_percent_at_def lit_def is_digit_def)
  then show ?thesis by (simp add: search_percent_None)
qed

lemma index_of_Some_iff:
  "index_of sep s = Some i \<longleftrightarrow>
     i \<le> length s \<and> prefix sep (drop i s) \<and> (\<forall>j < i. \<not> prefix sep (drop j s))"
proof (induction s arbitrary: i)
  case Nil
  then show ?case by auto
next
  case (Cons c cs)
  show ?case
  proof (cases "prefix sep (c # cs)")
    case True
    then have "index_of sep (c # cs) = Some 0" by simp
    moreover have "(i \<le> length (c # cs) \<and> prefix sep (drop i (c # cs)) \<and>
        (\<forall>j < i. \<not> prefix sep (drop j (c # cs)))) \<longleftrightarrow> i = 0"
    proof
      assume a: "i \<le> length (c # cs) \<and> prefix sep (drop i (c # cs)) \<and>
        (\<forall>j < i. \<not> prefix sep (drop j (c # cs)))"
      show "i = 0"
      proof (rule ccontr)
        assume "i \<noteq> 0"
        then have "0 < i" by simp
        with a have "\<not> prefix sep (drop 0 (c # cs))" by blast
        with True show False by simp
      qed
    next
      assume "i = 0"
      with True show "i \<le> length (c # cs) \<and> prefix sep (drop i (c # cs)) \<and>
        (\<forall>j < i. \<not> prefix sep (drop j (c # cs)))" by simp
    qed
    ultimately show ?thesis by auto
  next
    case False
    have "index_of sep (c # cs) = Some i \<longleftrightarrow> (\<exists>k. i = Suc k \<and> index_of sep cs = Some k)"
      using False by (auto split: option.splits)
    also have "\<dots> \<longleftrightarrow> (\<exists>k. i = Suc k \<and> k \<le> length cs \<and> prefix sep (drop k cs) \<and>
        (\<forall>j < k. \<not> prefix sep (drop j cs)))"
      using Cons.IH by simp
    also have "\<dots> \<longleftrightarrow> (i \<le> length (c # cs) \<and> prefix sep (drop i (c # cs)) \<and>
        (\<forall>j < i. \<not> prefix sep (drop j (c # cs))))" (is "?L \<longleftrightarrow> ?R")
    proof
      assume ?L
      then obtain k where k: "i = Suc k" "k \<le> length cs" "prefix sep (drop k cs)"
        "\<forall>j < k. \<not> prefix sep (drop j cs)" by blast
      have "\<not> prefix sep (drop j (c # cs))" if "j < i" for j
        using that k(1,4) False by (cases j) auto
      with k show ?R by simp
    next
      assume r: ?R
      with False obtain k where k: "i = Suc k" by (cases i) auto
      have "\<not> prefix sep (drop j cs)" if "j < k" for j
      proof -
        from that k have "Suc j < i" by simp
        with r have "\<not> prefix sep (drop (Suc j) (c # cs))" by blast
        then show ?thesis by simp
      qed
      with r k show ?L by simp
    qed
    finally show ?thesis .
  qed
qed

lemma index_of_None_iff:
  "index_of sep s = None \<longleftrightarrow> (\<forall>j \<le> length s. \<not> prefix sep (drop j s))"
proof (induction s)
  case Nil
  then show ?case by auto
next
  case (Cons c cs)
  show ?case
  proof (cases "prefix sep (c # cs)")
    case True
    then have "prefix sep (drop 0 (c # cs))" by simp
    with True show ?thesis by (metis index_of.simps(2) option.distinct(1) zero_le)
  next
    case False
    have "(\<forall>j \<le> length (c # cs). \<not> prefix sep (drop j (c # cs))) \<longleftrightarrow>
          (\<forall>j \<le> length cs. \<not> prefix sep (drop j cs))" (is "?L \<longleftrightarrow> ?R")
    proof
      assume l: ?L
      show ?R
      proof (intro allI impI)
        fix j assume "j \<le> length cs"
        then have "Suc j \<le> length (c # cs)" by simp
        with l have "\<not> prefix sep (drop (Suc j) (c # cs))" by blast
        then show "\<not> prefix sep (drop j cs)" by simp
      qed
    next
      assume r: ?R
      show ?L
      proof (intro allI impI)
        fix j assume "j \<le> length (c # cs)"
        then show "\<not> prefix sep (drop j (c # cs))"
          using r False by (cases j) auto
      qed
    qed
    with False Cons.IH show ?thesis by (auto split: option.splits)
  qed
qed

lemma includes_str_iff: "includes_str s sep \<longleftrightarrow> (\<exists>pre post. s = pre @ sep @ post)"
proof
  assume "includes_str s sep"
  then obtain i where "index_of sep s = Some i" by (auto simp: includes_str_def)
  then have "i \<le> length s" "prefix sep (drop i s)" by (simp_all add: index_of_Some_iff)
  then obtain post where "drop i s = sep @ post" by (auto simp: prefix_def)
  then have "s = take i s @ sep @ post" by (metis append_take_drop_id)
  then show "\<exists>pre post. s = pre @ sep @ post" by blast
next
  assume "\<exists>pre post. s = pre @ sep @ post"
  then obtain pre post where s: "s = pre @ sep @ post" by blast
  have "prefix sep (drop (length pre) s)" "length pre \<le> length s" by (simp_all add: s)
  then have "index_of sep s \<noteq> None" by (auto simp: index_of_None_iff)
  then show "includes_str s sep" by (simp add: includes_str_def)
qed

lemma includes_str_append: "includes_str s sep \<Longrightarrow> includes_str (s @ t) sep"
  by (auto simp: includes_str_iff) (metis append.assoc)

lemma split_str_found:
  assumes "sep \<noteq> []" and "index_of sep s = Some i"
  shows "split_str sep s = take i s # split_str sep (drop (i + length sep) s)"
  using assms by (subst split_str.simps) simp

lemma split_str_not_found:
  assumes "sep \<noteq> []" and "index_of sep s = None"
  shows "split_str sep s = [s]"
  using assms by (subst split_str.simps) simp

lemma split_str_nonempty: "sep \<noteq> [] \<Longrightarrow> split_str sep s \<noteq> []"
  by (subst split_str.simps) (simp split: option.splits)

lemma split_str_includes:
  assumes "sep \<noteq> []" and "includes_str s sep"
  shows "\<exists>a b r. split_str sep s = a # b # r"
proof -
  from assms(2) obtain i where i: "index_of sep s = Some i" by (auto simp: includes_str_def)
  obtain b r where "split_str sep (drop (i + length sep) s) = b # r"
    using split_str_nonempty[OF assms(1)] by (cases "split_str sep (drop (i + length sep) s)") auto
  with split_str_found[OF assms(1) i] show ?thesis by simp
qed

lemma split_str_hd_not_included:
  assumes "sep \<noteq> []" and "\<not> includes_str s sep"
  shows "split_str sep s = [s]"
  using assms by (simp add: split_str_not_found includes_str_def)

lemma index_of_first:
  assumes "sep \<noteq> []" and "\<forall>j < length pre. \<not> prefix sep (drop j (pre @ sep @ post))"
  shows "index_of sep (pre @ sep @ post) = Some (length pre)"
  using assms by (simp add: index_of_Some_iff)

lemma index_of_after_stop:
  assumes "sep \<noteq> []" and "x \<notin> set sep" and "\<not> includes_str txt sep"
  shows "index_of sep (txt @ x # sep @ post) = Some (Suc (length txt))"
proof -
  have "\<not> prefix sep (drop j (txt @ x # sep @ post))" if "j < Suc (length txt)" for j
  proof
    assume p: "prefix sep (drop j (txt @ x # sep @ post))"
    from that have d: "drop j (txt @ x # sep @ post) = drop j txt @ x # sep @ post" by simp
    from p have "prefix sep (drop j txt)"
      unfolding d using assms(2) by (rule prefix_before_stop)
    then obtain r where "drop j txt = sep @ r" by (auto simp: prefix_def)
    then have "txt = take j txt @ sep @ r" by (metis append_take_drop_id)
    then have "includes_str txt sep" unfolding includes_str_iff by blast
    with assms(3) show False by simp
  qed
  moreover have "prefix sep (drop (Suc (length txt)) (txt @ x # sep @ post))" by simp
  ultimately show ?thesis by (simp add: index_of_Some_iff)
qed

lemma MARKER_nonempty: "MARKER \<noteq> []" by (simp add: MARKER_def lit_def)
lemma MARKER_length: "length MARKER = 14" by (simp add: MARKER_def lit_def)
lemma MARKER_no_newline: "10 \<notin> set MARKER" by (simp add: MARKER_def lit_def)
lemma SENTINEL_MARKER: "SENTINEL = 10 # MARKER @ [10]" by (simp add: SENTINEL_def MARKER_def lit_def)

lemma includes_after_stop:
  assumes "x \<notin> set sep" and "sep \<noteq> []"
  shows "includes_str (x # s) sep \<longleftrightarrow> includes_str s sep"
proof
  assume "includes_str (x # s) sep"
  then obtain pre post where e: "x # s = pre @ sep @ post" unfolding includes_str_iff by blast
  show "includes_str s sep"
  proof (cases pre)
    case Nil
    with e assms show ?thesis by (cases sep) auto
  next
    case (Cons a pre')
    with e have "s = pre' @ sep @ post" by simp
    then show ?thesis unfolding includes_str_iff by blast
  qed
next
  assume "includes_str s sep"
  then obtain pre post where "s = pre @ sep @ post" unfolding includes_str_iff by blast
  then have "x # s = (x # pre) @ sep @ post" by simp
  then show "includes_str (x # s) sep" unfolding includes_str_iff by blast
qed

section \<open>Properties of the diagnosis store\<close>


lemma undigits10_digits10: "undigits10 (digits10 n) = n"
proof (induction n rule: digits10.induct)
  case (1 n)
  show ?case
  proof (cases "n < 10")
    case True
    then show ?thesis by (subst digits10.simps) (simp add: undigits10_def)
  next
    case False
    with 1 have "undigits10 (digits10 (n div 10)) = n div 10" by simp
    with False show ?thesis
      by (subst digits10.simps) (simp add: undigits10_def)
  qed
qed

lemma digits10_inj: "digits10 m = digits10 n \<Longrightarrow> m = n"
  by (metis undigits10_digits10)

lemma String_num_inj: "String_num m = String_num n \<longleftrightarrow> m = n"
proof
  assume "String_num m = String_num n"
  then have "digits10 m = digits10 n"
    unfolding String_num_def by (simp add: inj_map_eq_map inj_on_def)
  then show "m = n" by (rule digits10_inj)
qed simp

lemma digits10_small: "d \<in> set (digits10 n) \<Longrightarrow> d < 10"
proof (induction n rule: digits10.induct)
  case (1 n)
  then show ?case
    by (subst (asm) (2) digits10.simps) (auto split: if_splits)
qed

lemma digits10_nonempty: "digits10 n \<noteq> []"
  by (subst digits10.simps) simp

lemma String_num_hd: "String_num n \<noteq> [] \<and> is_digit (hd (String_num n))"
proof -
  obtain d ds where d: "digits10 n = d # ds" using digits10_nonempty by (cases "digits10 n") auto
  then have "d < 10" using digits10_small[of d n] by simp
  with d show ?thesis by (simp add: String_num_def is_digit_def)
qed

lemma field_not_numeric: "k \<in> set DiagnosisData_fields \<Longrightarrow> k \<noteq> String_num n"
proof
  assume k: "k \<in> set DiagnosisData_fields" and e: "k = String_num n"
  from k have "\<not> is_digit (hd k)"
    by (auto simp: DiagnosisData_fields_def lit_def is_digit_def)
  with e String_num_hd show False by blast
qed

lemma proto_name_not_numeric: "k \<in> set Object_prototype_names \<Longrightarrow> k \<noteq> String_num n"
proof
  assume k: "k \<in> set Object_prototype_names" and e: "k = String_num n"
  from k have "\<not> is_digit (hd k)"
    by (auto simp: Object_prototype_names_def lit_def is_digit_def)
  with e String_num_hd show False by blast
qed

lemma proto_not_numeric: "String_num n \<noteq> lit ''__proto__''"
  using proto_name_not_numeric[of "lit ''__proto__''" n]
  by (auto simp: Object_prototype_names_def)

lemma store_get_numeric_absent:
  assumes "store_inv s" and "diagnosesCounter s < n"
  shows "store_get s (String_num n) = Undefined"
proof -
  have own: "diagnoses s (String_num n) = None" using assms by (simp add: store_inv_def)
  have op: "Object_prototype_get s (String_num n) = Undefined"
    using proto_name_not_numeric[of "String_num n" n] proto_not_numeric[of n]
    by (auto simp: Object_prototype_get_def)
  have "inherited_get s (String_num n) = Undefined"
    using assms(1) op by (auto simp: inherited_get_def store_inv_def split: option.splits)
  with own show ?thesis by (simp add: store_get_def)
qed

lemma store_set_numeric:
  "store_set s (String_num n) v = s\<lparr>diagnoses := (diagnoses s)(String_num n \<mapsto> v)\<rparr>"
  using proto_not_numeric[of n] by (simp add: store_set_def)

lemma addDiagnosis_inv:
  assumes "store_inv s"
  shows "store_inv (snd (addDiagnosis d s))"
  using assms
  by (auto simp: addDiagnosis_def Let_def store_set_numeric store_inv_def String_num_inj)

lemma updateDiagnosis_counter: "diagnosesCounter (snd (updateDiagnosis k u s)) = diagnosesCounter s"
  by (simp add: updateDiagnosis_def Let_def store_set_def)

lemma own_props_proto_get:
  assumes "store_inv s" and "diagnoses s (lit ''__proto__'') = None"
    and "case diagnoses_proto s of None \<Rightarrow> True | Some p \<Rightarrow> p (lit ''__proto__'') = None"
  shows "own_props (store_get s (lit ''__proto__'')) (String_num n) = None"
  using assms
  by (auto simp: store_get_def inherited_get_def Object_prototype_get_def store_inv_def
      split: option.splits)

lemma updateDiagnosis_inv:
  assumes inv: "store_inv s" and ty: "dom u \<subseteq> set DiagnosisData_fields"
  shows "store_inv (snd (updateDiagnosis k u s))"
proof (cases "truthy (store_get s k)")
  case False
  then show ?thesis using inv by (simp add: updateDiagnosis_def)
next
  case True
  have un: "u (String_num n) = None" for n
    using ty field_not_numeric[of "String_num n" n] by (cases "u (String_num n)") auto
  let ?v = "own_props (store_get s k) ++ u"
  have res: "snd (updateDiagnosis k u s) = store_set s k ?v"
    using True by (simp add: updateDiagnosis_def Let_def)
  define P where "P \<longleftrightarrow> diagnoses s (lit ''__proto__'') = None \<and>
         (case diagnoses_proto s of None \<Rightarrow> True | Some p \<Rightarrow> p (lit ''__proto__'') = None)"
  show ?thesis
  proof (cases "k = lit ''__proto__'' \<and> P")
    case True
    then have kk: "k = lit ''__proto__''" and P by blast+
    have st: "store_set s k ?v = s\<lparr>diagnoses_proto := Some ?v\<rparr>"
      using \<open>P\<close> unfolding kk store_set_def P_def by simp
    have p1: "diagnoses s (lit ''__proto__'') = None"
      using \<open>P\<close> unfolding P_def by (rule conjunct1)
    have p2: "case diagnoses_proto s of None \<Rightarrow> True | Some p \<Rightarrow> p (lit ''__proto__'') = None"
      using \<open>P\<close> unfolding P_def by (rule conjunct2)
    have "own_props (store_get s (lit ''__proto__'')) (String_num n) = None" for n
      by (rule own_props_proto_get[OF inv p1 p2])
    then have "?v (String_num n) = None" for n
      using un[of n] unfolding kk by (simp add: map_add_def)
    then show ?thesis using inv unfolding res st by (simp add: store_inv_def)
  next
    case False
    then have st: "store_set s k ?v = s\<lparr>diagnoses := (diagnoses s)(k \<mapsto> ?v)\<rparr>"
      unfolding P_def store_set_def by auto
    have "k \<noteq> String_num n" if "diagnosesCounter s < n" for n
      using store_get_numeric_absent[OF inv that] \<open>truthy (store_get s k)\<close> by auto
    then show ?thesis using inv unfolding res st by (auto simp: store_inv_def)
  qed
qed

lemma initial_store_inv: "store_inv (initial_store stamp)"
proof -
  have "String_num n \<noteq> lit ''1'' \<and> String_num n \<noteq> lit ''2'' \<and> String_num n \<noteq> lit ''3''" if "3 < n" for n
  proof -
    have e: "lit ''1'' = String_num 1" "lit ''2'' = String_num 2" "lit ''3'' = String_num 3"
      by (simp_all add: String_num_def lit_def digits10.simps)
    show ?thesis unfolding e String_num_inj using that by simp
  qed
  then show ?thesis
    by (simp add: store_inv_def initial_store_def)
qed

lemma apply_op_inv: "store_inv s \<Longrightarrow> typed_op op \<Longrightarrow> store_inv (apply_op s op)"
  by (cases op) (simp_all add: addDiagnosis_inv updateDiagnosis_inv)

lemma foldl_apply_op_inv:
  "store_inv s \<Longrightarrow> list_all typed_op ops \<Longrightarrow> store_inv (foldl apply_op s ops)"
  by (induction ops arbitrary: s) (simp_all add: apply_op_inv)

lemma apply_op_counter:
  "diagnosesCounter (apply_op s op) = diagnosesCounter s + (if is_add op then 1 else 0)"
  by (cases op) (simp_all add: updateDiagnosis_counter addDiagnosis_def Let_def store_set_def)

lemma foldl_apply_op_counter:
  "diagnosesCounter (foldl apply_op s ops) = diagnosesCounter s + length (filter is_add ops)"
  by (induction ops arbitrary: s) (simp_all add: apply_op_counter)

lemma updateDiagnosis_present:
  assumes "diagnoses s k = Some d"
  shows "updateDiagnosis k u s = (Obj (d ++ u), s\<lparr>diagnoses := (diagnoses s)(k \<mapsto> d ++ u)\<rparr>)"
  using assms by (simp add: updateDiagnosis_def store_get_def store_set_def Let_def)

lemma updateDiagnosis_frame:
  assumes "diagnoses s k = Some d" and "updateDiagnosis k u s = (r, s')"
  shows "\<exists>d'. r = Obj d' \<and> diagnoses s' k = Some d' \<and>
           (\<forall>f. f \<notin> dom u \<longrightarrow> d' f = d f) \<and>
           (\<forall>f v. u f = Some v \<longrightarrow> d' f = Some v) \<and>
           (\<forall>j. j \<noteq> k \<longrightarrow> diagnoses s' j = diagnoses s j) \<and>
           diagnosesCounter s' = diagnosesCounter s \<and> diagnoses_proto s' = diagnoses_proto s"
proof -
  from assms have "r = Obj (d ++ u)" "s' = s\<lparr>diagnoses := (diagnoses s)(k \<mapsto> d ++ u)\<rparr>"
    by (simp_all add: updateDiagnosis_present)
  then show ?thesis by (auto simp: map_add_def domIff split: option.splits)
qed

lemma updateDiagnosis_absent:
  assumes "diagnoses s k = None" and "diagnoses_proto s = None"
    and "k \<notin> set Object_prototype_names"
  shows "updateDiagnosis k u s = (Undefined, s)"
proof -
  have "k \<noteq> lit ''__proto__''" using assms(3) by (auto simp: Object_prototype_names_def)
  then have "store_get s k = Undefined"
    using assms by (simp add: store_get_def inherited_get_def Object_prototype_get_def)
  then show ?thesis by (simp add: updateDiagnosis_def)
qed


section \<open>Properties of the relay\<close>

lemma pump_texts:
  assumes "cstate (ctrl st) = Readable"
  shows "pump (map Text cs) st =
     (None, st\<lparr>chunkCount := chunkCount st + length cs,
               fullText := fullText st @ concat cs,
               ctrl := (ctrl st)\<lparr>queue := queue (ctrl st) @ map TextEncoder_encode cs\<rparr>\<rparr>)"
  using assms
proof (induction cs arbitrary: st)
  case Nil
  then show ?case by simp
next
  case (Cons c cs)
  let ?st1 = "st\<lparr>chunkCount := chunkCount st + 1, fullText := fullText st @ c\<rparr>"
  let ?st2 = "?st1\<lparr>ctrl := (ctrl st)\<lparr>queue := queue (ctrl st) @ [TextEncoder_encode c]\<rparr>\<rparr>"
  have e: "enqueue (ctrl st) (TextEncoder_encode c) =
      Inr ((ctrl st)\<lparr>queue := queue (ctrl st) @ [TextEncoder_encode c]\<rparr>)"
    using Cons.prems by (simp add: enqueue_def)
  have "pump (map Text (c # cs)) st = pump (map Text cs) ?st2"
    by (simp add: e Let_def)
  also have "\<dots> = (None, ?st2\<lparr>chunkCount := chunkCount ?st2 + length cs,
               fullText := fullText ?st2 @ concat cs,
               ctrl := (ctrl ?st2)\<lparr>queue := queue (ctrl ?st2) @ map TextEncoder_encode cs\<rparr>\<rparr>)"
    using Cons.prems by (intro Cons.IH) simp
  finally show ?case by simp
qed

lemma pump_raise:
  assumes "cstate (ctrl st) = Readable"
  shows "pump (map Text cs @ Raise # rest) st =
     (Some UpstreamFailure, st\<lparr>chunkCount := chunkCount st + length cs,
               fullText := fullText st @ concat cs,
               ctrl := (ctrl st)\<lparr>queue := queue (ctrl st) @ map TextEncoder_encode cs\<rparr>\<rparr>)"
  using assms
proof (induction cs arbitrary: st)
  case Nil
  then show ?case by simp
next
  case (Cons c cs)
  let ?st2 = "st\<lparr>chunkCount := chunkCount st + 1, fullText := fullText st @ c,
               ctrl := (ctrl st)\<lparr>queue := queue (ctrl st) @ [TextEncoder_encode c]\<rparr>\<rparr>"
  have "pump (map Text (c # cs) @ Raise # rest) st = pump (map Text cs @ Raise # rest) ?st2"
    using Cons.prems by (simp add: enqueue_def Let_def)
  also have "\<dots> = (Some UpstreamFailure, ?st2\<lparr>chunkCount := chunkCount ?st2 + length cs,
             fullText := fullText ?st2 @ concat cs,
             ctrl := (ctrl ?st2)\<lparr>queue := queue (ctrl ?st2) @ map TextEncoder_encode cs\<rparr>\<rparr>)"
    using Cons.prems by (intro Cons.IH) simp
  finally show ?case by simp
qed

lemma extract_suggestions_filter:
  assumes "suggestionPattern_match t = Some g"
  shows "extract_suggestions t =
           filter (\<lambda>line. length line > 10 \<and> length line < 150) (candidate_lines g)"
proof (cases "g = []")
  case True
  have "split_str [10] ([]::jstring) = [[]]"
    by (subst split_str.simps) simp
  then have "candidate_lines [] = [[]]"
    by (simp add: candidate_lines_def trim_def strip_bullet_def)
  with True assms show ?thesis by (simp add: extract_suggestions_def)
next
  case False
  with assms show ?thesis by (simp add: extract_suggestions_def)
qed

lemma five_questions_suggestions:
  "extract_suggestions five_questions =
     [lit ''How long does the flu last?'', lit ''When should I see a doctor?'',
      lit ''Is the flu contagious now?'', lit ''What medicine can I take?'',
      lit ''Can I go to work with flu?'']"
  by (simp add: five_questions_def extract_suggestions_def match_heading_at_def match_lit_ci_def
      starts_with_ci_def upper_ascii_def candidate_lines_def trim_def strip_bullet_def
      is_space_def lit_def split_str.simps)


section \<open>Properties of the JSON parser\<close>

lemma parse_fuel_mono:
  "(\<forall>s r. parse_value n s = Some r \<longrightarrow> parse_value (Suc n) s = Some r) \<and>
   (\<forall>s r. parse_elements n s = Some r \<longrightarrow> parse_elements (Suc n) s = Some r) \<and>
   (\<forall>s r. parse_members n s = Some r \<longrightarrow> parse_members (Suc n) s = Some r)"
proof (induction n)
  case 0
  then show ?case by simp
next
  case (Suc n)
  then have ihe: "\<And>s r. parse_elements n s = Some r \<Longrightarrow> parse_elements (Suc n) s = Some r"
    and ihm: "\<And>s r. parse_members n s = Some r \<Longrightarrow> parse_members (Suc n) s = Some r"
    by blast+
  have v: "parse_value (Suc (Suc n)) s = Some r" if a: "parse_value (Suc n) s = Some r" for s r
  proof (cases s)
    case Nil
    with a show ?thesis by simp
  next
    case (Cons c cs)
    show ?thesis
    proof (cases "c = 123")
      case True
      with a Cons obtain d ds where d: "skip_ws cs = d # ds"
        by (cases "skip_ws cs") auto
      show ?thesis
      proof (cases "d = 125")
        case T2: True
        with a Cons True d show ?thesis by simp
      next
        case False
        with a Cons True d obtain kvs r' where "parse_members n (d # ds) = Some (kvs, r')"
          and "r = (JObj kvs, r')"
          by (auto split: option.splits)
        with ihm[of "d # ds" "(kvs, r')"] Cons True d False show ?thesis by simp
      qed
    next
      case F1: False
      show ?thesis
      proof (cases "c = 91")
        case True
        with a Cons obtain d ds where d: "skip_ws cs = d # ds"
          by (cases "skip_ws cs") auto
        show ?thesis
        proof (cases "d = 93")
          case T2: True
          with a Cons True d show ?thesis by simp
        next
          case False
          with a Cons True d obtain vs r' where "parse_elements n (d # ds) = Some (vs, r')"
            and "r = (JArr vs, r')"
            by (auto split: option.splits)
          with ihe[of "d # ds" "(vs, r')"] Cons True d False show ?thesis by simp
        qed
      next
        case False
        with a Cons F1 show ?thesis by simp
      qed
    qed
  qed
  have e: "parse_elements (Suc (Suc n)) s = Some r" if a: "parse_elements (Suc n) s = Some r" for s r
  proof -
    from a obtain x r1 where pv: "parse_value (Suc n) s = Some (x, r1)"
      by (auto split: option.splits)
    from a pv obtain d ds where d: "skip_ws r1 = d # ds" by (cases "skip_ws r1") auto
    have pv': "parse_value (Suc (Suc n)) s = Some (x, r1)" using v[OF pv] .
    show ?thesis
    proof (cases "d = 93")
      case True
      with a pv d pv' show ?thesis by simp
    next
      case False
      with a pv d obtain vs r' where "d = 44" "parse_elements n (skip_ws ds) = Some (vs, r')"
        "r = (x # vs, r')"
        by (auto split: option.splits if_splits)
      with ihe[of "skip_ws ds" "(vs, r')"] pv' d False show ?thesis by simp
    qed
  qed
  have m: "parse_members (Suc (Suc n)) s = Some r" if a: "parse_members (Suc n) s = Some r" for s r
  proof -
    from a obtain qs where s: "s = 34 # qs" by (cases s) (auto split: if_splits)
    from a s obtain key r0 where k: "parse_string_body qs = Some (key, r0)"
      by (auto split: option.splits)
    from a s k obtain r1 where c: "skip_ws r0 = 58 # r1"
      by (cases "skip_ws r0") (auto split: if_splits)
    from a s k c obtain x r2 where pv: "parse_value (Suc n) (skip_ws r1) = Some (x, r2)"
      by (auto split: option.splits)
    from a s k c pv obtain d ds where d: "skip_ws r2 = d # ds" by (cases "skip_ws r2") auto
    have pv': "parse_value (Suc (Suc n)) (skip_ws r1) = Some (x, r2)" using v[OF pv] .
    show ?thesis
    proof (cases "d = 125")
      case True
      with a s k c pv d pv' show ?thesis by simp
    next
      case False
      with a s k c pv d obtain kvs r' where "d = 44" "parse_members n (skip_ws ds) = Some (kvs, r')"
        "r = ((key, x) # kvs, r')"
        by (auto split: option.splits if_splits)
      with ihm[of "skip_ws ds" "(kvs, r')"] s k c pv' d False show ?thesis by simp
    qed
  qed
  from v e m show ?case by blast
qed

lemma parse_fuel_le:
  assumes "k \<le> k'"
  shows "parse_value k s = Some r \<Longrightarrow> parse_value k' s = Some r"
    and "parse_elements k s = Some re \<Longrightarrow> parse_elements k' s = Some re"
    and "parse_members k s = Some rm \<Longrightarrow> parse_members k' s = Some rm"
proof -
  have "(parse_value k s = Some r \<longrightarrow> parse_value (k + d) s = Some r) \<and>
        (parse_elements k s = Some re \<longrightarrow> parse_elements (k + d) s = Some re) \<and>
        (parse_members k s = Some rm \<longrightarrow> parse_members (k + d) s = Some rm)" for d
  proof (induction d)
    case 0
    then show ?case by simp
  next
    case (Suc d)
    have "parse_value (k + d) s = Some r \<longrightarrow> parse_value (Suc (k + d)) s = Some r"
      "parse_elements (k + d) s = Some re \<longrightarrow> parse_elements (Suc (k + d)) s = Some re"
      "parse_members (k + d) s = Some rm \<longrightarrow> parse_members (Suc (k + d)) s = Some rm"
      using parse_fuel_mono[of "k + d"] by blast+
    with Suc show ?case unfolding add_Suc_right by blast
  qed
  from this[of "k' - k"] assms
  show "parse_value k s = Some r \<Longrightarrow> parse_value k' s = Some r"
    and "parse_elements k s = Some re \<Longrightarrow> parse_elements k' s = Some re"
    and "parse_members k s = Some rm \<Longrightarrow> parse_members k' s = Some rm"
    by simp_all
qed

lemma skip_ws_length: "length (skip_ws s) \<le> length s"
  by (simp add: skip_ws_def length_dropWhile_le)

lemma cons_char_Some:
  "cons_char c x = Some (str, r) \<Longrightarrow> \<exists>str'. x = Some (str', r)"
  by (cases x) (auto simp: cons_char_def)

lemma parse_string_body_shorter:
  "parse_string_body s = Some (str, r) \<Longrightarrow> length r < length s"
proof (induction "length s" arbitrary: s str r rule: less_induct)
  case less
  show ?case
  proof (cases s)
    case Nil
    with less.prems show ?thesis by simp
  next
    case (Cons c cs)
    show ?thesis
    proof (cases "c = 34")
      case True
      with less.prems Cons show ?thesis by simp
    next
      case n34: False
      have "\<exists>t str'. parse_string_body t = Some (str', r) \<and> length t < length s"
      proof (cases "c = 92")
        case True
        from less.prems Cons n34 True obtain e es where cs: "cs = e # es" by (cases cs) auto
        show ?thesis
        proof (cases "e = 117")
          case T: True
          from less.prems Cons n34 True cs T obtain h1 h2 h3 h4 t u where
            es: "es = h1 # h2 # h3 # h4 # t"
            and cc: "cons_char u (parse_string_body t) = Some (str, r)"
            by (auto split: list.splits option.splits)
          from cons_char_Some[OF cc] obtain str' where "parse_string_body t = Some (str', r)" by blast
          then show ?thesis using Cons cs es by auto
        next
          case F: False
          from less.prems Cons n34 True cs F obtain ch where
            cc: "cons_char ch (parse_string_body es) = Some (str, r)"
            by (auto split: option.splits)
          from cons_char_Some[OF cc] obtain str' where "parse_string_body es = Some (str', r)" by blast
          then show ?thesis using Cons cs by auto
        qed
      next
        case n92: False
        from less.prems Cons n34 n92 have
          cc: "cons_char c (parse_string_body cs) = Some (str, r)"
          by (auto split: if_splits)
        from cons_char_Some[OF cc] obtain str' where "parse_string_body cs = Some (str', r)" by blast
        then show ?thesis using Cons by auto
      qed
      then obtain t str' where t: "parse_string_body t = Some (str', r)" "length t < length s"
        by blast
      from less.hyps[OF t(2) t(1)] t(2) show ?thesis by simp
    qed
  qed
qed

lemma parse_int_part_shorter: "parse_int_part s = Some (l, r) \<Longrightarrow> length r < length s"
  by (auto simp: parse_int_part_def split: list.splits if_splits
      intro: le_imp_less_Suc length_dropWhile_le)

lemma parse_frac_part_le: "parse_frac_part s = Some (l, r) \<Longrightarrow> length r \<le> length s"
  by (auto simp: parse_frac_part_def split: list.splits if_splits
      intro: le_SucI length_dropWhile_le)

lemma parse_exp_part_le: "parse_exp_part s = Some (l, r) \<Longrightarrow> length r \<le> length s"
proof -
  assume a: "parse_exp_part s = Some (l, r)"
  have d: "length (dropWhile is_digit t) \<le> length t" for t by (rule length_dropWhile_le)
  show ?thesis
  proof (cases s)
    case Nil
    with a show ?thesis by (simp add: parse_exp_part_def)
  next
    case (Cons c cs)
    show ?thesis
    proof (cases "c = 101 \<or> c = 69")
      case False
      with a Cons show ?thesis by (auto simp: parse_exp_part_def)
    next
      case True
      show ?thesis
      proof (cases cs)
        case Nil
        with a Cons True show ?thesis by (auto simp: parse_exp_part_def)
      next
        case (Cons e es)
        with a \<open>s = c # cs\<close> True d[of es] d[of cs] show ?thesis
          by (auto simp: parse_exp_part_def Let_def split: if_splits)
      qed
    qed
  qed
qed

lemma parse_number_shorter: "parse_number s = Some (l, r) \<Longrightarrow> length r < length s"
proof -
  assume a: "parse_number s = Some (l, r)"
  define r0 where "r0 = (case s of c # cs \<Rightarrow> if c = 45 then cs else s | [] \<Rightarrow> s)"
  have r0: "length r0 \<le> length s" by (auto simp: r0_def split: list.splits)
  from a obtain ip r1 fp r2 ep where
    i: "parse_int_part r0 = Some (ip, r1)" and f: "parse_frac_part r1 = Some (fp, r2)"
    and e: "parse_exp_part r2 = Some (ep, r)"
    by (auto simp: parse_number_def r0_def Let_def split: list.splits if_splits option.splits prod.splits)
  from parse_int_part_shorter[OF i] parse_frac_part_le[OF f] parse_exp_part_le[OF e] r0
  show ?thesis by simp
qed

lemma parse_keyword_shorter:
  "kw \<noteq> [] \<Longrightarrow> parse_keyword kw v s = Some (x, r) \<Longrightarrow> length r < length s"
  by (auto simp: parse_keyword_def lit_def prefix_def split: if_splits)

lemma parse_keywords_shorter:
  "parse_keyword ''true'' v s = Some (x, r) \<Longrightarrow> length r < length s"
  "parse_keyword ''false'' v s = Some (x, r) \<Longrightarrow> length r < length s"
  "parse_keyword ''null'' v s = Some (x, r) \<Longrightarrow> length r < length s"
  by (auto simp: parse_keyword_def lit_def prefix_def split: if_splits)

lemma parse_value_cases:
  assumes "parse_value (Suc n) s = Some (v, r)"
  obtains
    (empty_obj) cs ds where "s = 123 # cs" "skip_ws cs = 125 # ds" "v = JObj []" "r = ds"
  | (obj) cs d ds kvs where "s = 123 # cs" "skip_ws cs = d # ds" "d \<noteq> 125"
      "parse_members n (d # ds) = Some (kvs, r)" "v = JObj kvs"
  | (empty_arr) cs ds where "s = 91 # cs" "skip_ws cs = 93 # ds" "v = JArr []" "r = ds"
  | (arr) cs d ds vs where "s = 91 # cs" "skip_ws cs = d # ds" "d \<noteq> 93"
      "parse_elements n (d # ds) = Some (vs, r)" "v = JArr vs"
  | (leaf) "length r < length s" "\<And>k. parse_value (Suc k) s = Some (v, r)"
proof (cases s)
  case Nil
  with assms show ?thesis by simp
next
  case (Cons c cs)
  show ?thesis
  proof (cases "c = 123")
    case True
    with assms Cons obtain d ds where d: "skip_ws cs = d # ds" by (cases "skip_ws cs") auto
    show ?thesis
    proof (cases "d = 125")
      case T: True
      with assms Cons True d show ?thesis by (intro empty_obj[of cs ds]) auto
    next
      case False
      with assms Cons True d obtain kvs where "parse_members n (d # ds) = Some (kvs, r)" "v = JObj kvs"
        by (auto split: option.splits)
      with Cons True d False show ?thesis by (intro obj[of cs d ds kvs]) auto
    qed
  next
    case n123: False
    show ?thesis
    proof (cases "c = 91")
      case True
      with assms Cons obtain d ds where d: "skip_ws cs = d # ds" by (cases "skip_ws cs") auto
      show ?thesis
      proof (cases "d = 93")
        case T: True
        with assms Cons True d show ?thesis by (intro empty_arr[of cs ds]) auto
      next
        case False
        with assms Cons True d obtain vs where "parse_elements n (d # ds) = Some (vs, r)" "v = JArr vs"
          by (auto split: option.splits)
        with Cons True d False show ?thesis by (intro arr[of cs d ds vs]) auto
      qed
    next
      case n91: False
      have eq: "parse_value (Suc k) s = parse_value (Suc n) s" for k
        using Cons n123 n91 by simp
      have "length r < length s"
      proof (cases "c = 34")
        case True
        with assms Cons n123 n91 obtain str where "parse_string_body cs = Some (str, r)"
          by (auto split: option.splits)
        from parse_string_body_shorter[OF this] Cons show ?thesis by simp
      next
        case n34: False
        show ?thesis
        proof (cases "c = 116 \<or> c = 102 \<or> c = 110")
          case True
          with assms Cons n123 n91 n34 have
            "parse_keyword ''true'' (JBool True) s = Some (v, r) \<or>
             parse_keyword ''false'' (JBool False) s = Some (v, r) \<or>
             parse_keyword ''null'' JNull s = Some (v, r)"
            by auto
          then show ?thesis using parse_keywords_shorter by blast
        next
          case False
          with assms Cons n123 n91 n34 obtain lx where "parse_number s = Some (lx, r)"
            by (auto split: option.splits)
          from parse_number_shorter[OF this] show ?thesis .
        qed
      qed
      then show ?thesis using eq assms by (intro leaf) auto
    qed
  qed
qed

lemma parse_elements_cases:
  assumes "parse_elements (Suc n) s = Some (vs, r)"
  obtains
    (single) x r1 where "parse_value (Suc n) s = Some (x, r1)" "skip_ws r1 = 93 # r" "vs = [x]"
  | (more) x r1 ds vs' where "parse_value (Suc n) s = Some (x, r1)" "skip_ws r1 = 44 # ds"
      "parse_elements n (skip_ws ds) = Some (vs', r)" "vs = x # vs'"
proof -
  from assms obtain x r1 where pv: "parse_value (Suc n) s = Some (x, r1)"
    by (auto split: option.splits)
  from assms pv obtain d ds where d: "skip_ws r1 = d # ds" by (cases "skip_ws r1") auto
  show ?thesis
  proof (cases "d = 93")
    case True
    with assms pv d show ?thesis by (intro single[of x r1]) auto
  next
    case False
    with assms pv d obtain vs' where "d = 44" "parse_elements n (skip_ws ds) = Some (vs', r)" "vs = x # vs'"
      by (auto split: option.splits if_splits)
    with pv d show ?thesis by (intro more[of x r1 ds vs']) auto
  qed
qed

lemma parse_members_cases:
  assumes "parse_members (Suc n) s = Some (kvs, r)"
  obtains
    (single) qs key r0 r1 x r2 where "s = 34 # qs" "parse_string_body qs = Some (key, r0)"
      "skip_ws r0 = 58 # r1" "parse_value (Suc n) (skip_ws r1) = Some (x, r2)"
      "skip_ws r2 = 125 # r" "kvs = [(key, x)]"
  | (more) qs key r0 r1 x r2 ds kvs' where "s = 34 # qs" "parse_string_body qs = Some (key, r0)"
      "skip_ws r0 = 58 # r1" "parse_value (Suc n) (skip_ws r1) = Some (x, r2)"
      "skip_ws r2 = 44 # ds" "parse_members n (skip_ws ds) = Some (kvs', r)" "kvs = (key, x) # kvs'"
proof -
  from assms obtain qs where s: "s = 34 # qs" by (cases s) (auto split: if_splits)
  from assms s obtain key r0 where k: "parse_string_body qs = Some (key, r0)"
    by (auto split: option.splits)
  from assms s k obtain r1 where c: "skip_ws r0 = 58 # r1"
    by (cases "skip_ws r0") (auto split: if_splits)
  from assms s k c obtain x r2 where pv: "parse_value (Suc n) (skip_ws r1) = Some (x, r2)"
    by (auto split: option.splits)
  from assms s k c pv obtain d ds where d: "skip_ws r2 = d # ds" by (cases "skip_ws r2") auto
  show ?thesis
  proof (cases "d = 125")
    case True
    with assms s k c pv d show ?thesis by (intro single[of qs key r0 r1 x r2]) auto
  next
    case False
    with assms s k c pv d obtain kvs' where "d = 44" "parse_members n (skip_ws ds) = Some (kvs', r)"
      "kvs = (key, x) # kvs'"
      by (auto split: option.splits if_splits)
    with s k c pv d show ?thesis by (intro more[of qs key r0 r1 x r2 ds kvs']) auto
  qed
qed

lemma skip_ws_Cons_length: "skip_ws s = d # ds \<Longrightarrow> length ds < length s"
  using skip_ws_length[of s] by simp

lemma parse_shorter:
  "(\<forall>s v r. parse_value n s = Some (v, r) \<longrightarrow> length r < length s) \<and>
   (\<forall>s vs r. parse_elements n s = Some (vs, r) \<longrightarrow> length r < length s) \<and>
   (\<forall>s kvs r. parse_members n s = Some (kvs, r) \<longrightarrow> length r < length s)"
proof (induction n)
  case 0
  then show ?case by simp
next
  case (Suc n)
  then have ihe: "\<And>s vs r. parse_elements n s = Some (vs, r) \<Longrightarrow> length r < length s"
    and ihm: "\<And>s kvs r. parse_members n s = Some (kvs, r) \<Longrightarrow> length r < length s"
    by blast+
  have v: "length r < length s" if a: "parse_value (Suc n) s = Some (v, r)" for s v r
    using a
  proof (cases rule: parse_value_cases)
    case (empty_obj cs ds)
    then show ?thesis using skip_ws_Cons_length[of cs 125 ds] by simp
  next
    case (obj cs d ds kvs)
    then show ?thesis using ihm[of "d # ds" kvs r] skip_ws_Cons_length[of cs d ds] by simp
  next
    case (empty_arr cs ds)
    then show ?thesis using skip_ws_Cons_length[of cs 93 ds] by simp
  next
    case (arr cs d ds vs)
    then show ?thesis using ihe[of "d # ds" vs r] skip_ws_Cons_length[of cs d ds] by simp
  next
    case leaf
    then show ?thesis by simp
  qed
  have e: "length r < length s" if a: "parse_elements (Suc n) s = Some (vs, r)" for s vs r
    using a
  proof (cases rule: parse_elements_cases)
    case (single x r1)
    then show ?thesis using v[of s x r1] skip_ws_Cons_length[of r1 93 r] by simp
  next
    case (more x r1 ds vs')
    then show ?thesis
      using v[of s x r1] skip_ws_Cons_length[of r1 44 ds] ihe[of "skip_ws ds" vs' r]
        skip_ws_length[of ds] by simp
  qed
  have m: "length r < length s" if a: "parse_members (Suc n) s = Some (kvs, r)" for s kvs r
    using a
  proof (cases rule: parse_members_cases)
    case (single qs key r0 r1 x r2)
    then show ?thesis
      using parse_string_body_shorter[of qs key r0] skip_ws_Cons_length[of r0 58 r1]
        v[of "skip_ws r1" x r2] skip_ws_length[of r1] skip_ws_Cons_length[of r2 125 r] by simp
  next
    case (more qs key r0 r1 x r2 ds kvs')
    then show ?thesis
      using parse_string_body_shorter[of qs key r0] skip_ws_Cons_length[of r0 58 r1]
        v[of "skip_ws r1" x r2] skip_ws_length[of r1] skip_ws_Cons_length[of r2 44 ds]
        ihm[of "skip_ws ds" kvs' r] skip_ws_length[of ds] by simp
  qed
  from v e m show ?case by blast
qed

lemma parse_value_shorter: "parse_value n s = Some (v, r) \<Longrightarrow> length r < length s"
  using parse_shorter[of n] by blast

lemma parse_enough_fuel:
  "(\<forall>n v r. parse_value n s = Some (v, r) \<longrightarrow> parse_value (length s) s = Some (v, r)) \<and>
   (\<forall>n vs r. parse_elements n s = Some (vs, r) \<longrightarrow> parse_elements (length s) s = Some (vs, r)) \<and>
   (\<forall>n kvs r. parse_members n s = Some (kvs, r) \<longrightarrow> parse_members (length s) s = Some (kvs, r))"
proof (induction "length s" arbitrary: s rule: less_induct)
  case less
  have ihv: "parse_value (length t) t = Some (v, r)"
    if "length t < length s" "parse_value n t = Some (v, r)" for t n v r
    using less.hyps[OF that(1)] that(2) by blast
  have ihe: "parse_elements (length t) t = Some (vs, r)"
    if "length t < length s" "parse_elements n t = Some (vs, r)" for t n vs r
    using less.hyps[OF that(1)] that(2) by blast
  have ihm: "parse_members (length t) t = Some (kvs, r)"
    if "length t < length s" "parse_members n t = Some (kvs, r)" for t n kvs r
    using less.hyps[OF that(1)] that(2) by blast
  have v: "parse_value (length s) s = Some (v, r)" if a: "parse_value n s = Some (v, r)" for n v r
  proof -
    from a obtain n' where n: "n = Suc n'" by (cases n) auto
    from a obtain m where m: "length s = Suc m" by (cases s) (auto simp: n)
    from a[unfolded n] show ?thesis
    proof (cases rule: parse_value_cases)
      case (empty_obj cs ds)
      then show ?thesis by (simp add: m)
    next
      case (obj cs d ds kvs)
      have l: "length (d # ds) \<le> m" using obj(1,2) m skip_ws_length[of cs] by simp
      then have "length (d # ds) < length s" using m by simp
      from ihm[OF this obj(4)] have "parse_members m (d # ds) = Some (kvs, r)"
        using parse_fuel_le(3)[OF l] by blast
      with obj m show ?thesis by simp
    next
      case (empty_arr cs ds)
      then show ?thesis by (simp add: m)
    next
      case (arr cs d ds vs)
      have l: "length (d # ds) \<le> m" using arr(1,2) m skip_ws_length[of cs] by simp
      then have "length (d # ds) < length s" using m by simp
      from ihe[OF this arr(4)] have "parse_elements m (d # ds) = Some (vs, r)"
        using parse_fuel_le(2)[OF l] by blast
      with arr m show ?thesis by simp
    next
      case leaf
      then show ?thesis by (simp add: m)
    qed
  qed
  have e: "parse_elements (length s) s = Some (vs, r)" if a: "parse_elements n s = Some (vs, r)" for n vs r
  proof -
    from a obtain n' where n: "n = Suc n'" by (cases n) auto
    from a[unfolded n] show ?thesis
    proof (cases rule: parse_elements_cases)
      case (single x r1)
      from parse_value_shorter[OF single(1)] obtain m where m: "length s = Suc m"
        by (cases s) auto
      from v[OF single(1)] single m show ?thesis by simp
    next
      case (more x r1 ds vs')
      have lr: "length r1 < length s" using parse_value_shorter[OF more(1)] .
      then obtain m where m: "length s = Suc m" by (cases s) auto
      have l: "length (skip_ws ds) \<le> m"
        using skip_ws_length[of ds] skip_ws_Cons_length[OF more(2)] lr m by simp
      then have "length (skip_ws ds) < length s" using m by simp
      from ihe[OF this more(3)] have "parse_elements m (skip_ws ds) = Some (vs', r)"
        using parse_fuel_le(2)[OF l] by blast
      with v[OF more(1)] more m show ?thesis by simp
    qed
  qed
  have mm: "parse_members (length s) s = Some (kvs, r)" if a: "parse_members n s = Some (kvs, r)" for n kvs r
  proof -
    from a obtain n' where n: "n = Suc n'" by (cases n) auto
    from a[unfolded n] show ?thesis
    proof (cases rule: parse_members_cases)
      case (single qs key r0 r1 x r2)
      obtain m where m: "length s = Suc m" using single(1) by simp
      have l1: "length (skip_ws r1) < length s"
        using single(1) parse_string_body_shorter[OF single(2)] skip_ws_Cons_length[OF single(3)]
          skip_ws_length[of r1] by simp
      from ihv[OF l1 single(4)] have "parse_value (Suc m) (skip_ws r1) = Some (x, r2)"
        using parse_fuel_le(1)[of "length (skip_ws r1)" "Suc m"] l1 m by simp
      with single m show ?thesis by simp
    next
      case (more qs key r0 r1 x r2 ds kvs')
      obtain m where m: "length s = Suc m" using more(1) by simp
      have l1: "length (skip_ws r1) < length s"
        using more(1) parse_string_body_shorter[OF more(2)] skip_ws_Cons_length[OF more(3)]
          skip_ws_length[of r1] by simp
      from ihv[OF l1 more(4)] have pv: "parse_value (Suc m) (skip_ws r1) = Some (x, r2)"
        using parse_fuel_le(1)[of "length (skip_ws r1)" "Suc m"] l1 m by simp
      have l2: "length (skip_ws ds) \<le> m"
        using skip_ws_length[of ds] skip_ws_Cons_length[OF more(5)]
          parse_value_shorter[OF more(4)] l1 m by simp
      then have "length (skip_ws ds) < length s" using m by simp
      from ihm[OF this more(6)] have "parse_members m (skip_ws ds) = Some (kvs', r)"
        using parse_fuel_le(3)[OF l2] by blast
      with pv more m show ?thesis by simp
    qed
  qed
  from v e mm show ?case by blast
qed

lemma JSON_parse_fuel_free:
  "JSON_parse s = Some v \<longleftrightarrow> (\<exists>n r. parse_value n (skip_ws s) = Some (v, r) \<and> skip_ws r = [])"
proof
  assume "JSON_parse s = Some v"
  then obtain r where "parse_value (length s) (skip_ws s) = Some (v, r)" "skip_ws r = []"
    by (auto simp: JSON_parse_def split: option.splits if_splits)
  then show "\<exists>n r. parse_value n (skip_ws s) = Some (v, r) \<and> skip_ws r = []"
    by blast
next
  assume "\<exists>n r. parse_value n (skip_ws s) = Some (v, r) \<and> skip_ws r = []"
  then obtain n r where p: "parse_value n (skip_ws s) = Some (v, r)" and r: "skip_ws r = []"
    by blast
  from p have "parse_value (length (skip_ws s)) (skip_ws s) = Some (v, r)"
    using parse_enough_fuel[of "skip_ws s"] by blast
  then have "parse_value (length s) (skip_ws s) = Some (v, r)"
    using parse_fuel_le(1)[OF skip_ws_length[of s]] by blast
  with r show "JSON_parse s = Some v" by (simp add: JSON_parse_def)
qed

lemma JSON_parse_leading_ws:
  assumes "json_ws c"
  shows "JSON_parse (c # js) = JSON_parse js"
proof -
  have sk: "skip_ws (c # js) = skip_ws js" using assms by (simp add: skip_ws_def)
  have "JSON_parse (c # js) = Some v \<longleftrightarrow> JSON_parse js = Some v" for v
    unfolding JSON_parse_fuel_free sk ..
  then show ?thesis by (metis option.exhaust)
qed

lemma JSON_parse_leading_newline:
  assumes "JSON_parse js = Some md"
  shows "JSON_parse (10 # js) = Some md"
  using assms JSON_parse_leading_ws[of 10 js] by (simp add: json_ws_def)


section \<open>Properties of the chat widget\<close>

lemma apply_metadata_cases:
  "apply_metadata mp st = st \<or> (\<exists>v. apply_metadata mp st = st\<lparr>suggestions := v\<rparr>)"
  by (auto simp: apply_metadata_def split: option.splits sum.splits)

lemma apply_metadata_parse_error:
  "JSON_parse mp = None \<Longrightarrow> apply_metadata (Some mp) st = st"
  by (simp add: apply_metadata_def)

lemma apply_metadata_suggestions:
  "JSON_parse mp = Some md \<Longrightarrow> get_suggestions md = Inr (Some v) \<Longrightarrow> json_truthy v \<Longrightarrow>
     apply_metadata (Some mp) st = st\<lparr>suggestions := v\<rparr>"
  by (simp add: apply_metadata_def)

lemma read_loop_frame:
  assumes "read_loop body ls = (e, ls')"
  shows "messages (ui ls') = messages (ui ls) \<and>
         conversationHistory (ui ls') = conversationHistory (ui ls) \<and>
         isLoading (ui ls') = isLoading (ui ls) \<and>
         inputMessage (ui ls') = inputMessage (ui ls)"
  using assms
proof (induction body ls arbitrary: e ls' rule: read_loop.induct)
  case (1 ls)
  then show ?case by simp
next
  case (2 ex rest ls)
  then show ?case by simp
next
  case (3 chunk now rest ls)
  let ?ls1 = "ls\<lparr>chunks := chunks ls @ [chunk]\<rparr>"
  let ?acc = "concat (chunks ?ls1)"
  show ?case
  proof (cases "includes_str ?acc MARKER")
    case True
    let ?mp = "second_part (split_str MARKER ?acc)"
    let ?st1 = "(ui ?ls1)\<lparr>streamingMessage := first_part (split_str MARKER ?acc)\<rparr>"
    from 3(3) True have "ls' = ?ls1\<lparr>ui := apply_metadata ?mp ?st1\<rparr>"
      by (simp add: Let_def)
    then show ?thesis
      using apply_metadata_cases[of ?mp ?st1] by auto
  next
    case False
    show ?thesis
    proof (cases "now - lastUpdateTime ?ls1 \<ge> UPDATE_INTERVAL")
      case True
      let ?ls2 = "?ls1\<lparr>ui := (ui ?ls1)\<lparr>streamingMessage := ?acc\<rparr>, lastUpdateTime := now\<rparr>"
      from 3(3) False True have "read_loop rest ?ls2 = (e, ls')" by (simp add: Let_def)
      from 3(1)[OF refl refl False True this] show ?thesis by simp
    next
      case F2: False
      from 3(3) False F2 have "read_loop rest ?ls1 = (e, ls')" by (simp add: Let_def)
      from 3(2)[OF refl refl False F2 this] show ?thesis by simp
    qed
  qed
qed

lemma read_loop_no_marker:
  assumes "\<not> includes_str (concat (chunks ls @ map fst cs)) MARKER"
  shows "\<exists>sm t. read_loop (map (\<lambda>(c, t). Chunk c t) cs @ rest) ls =
           read_loop rest (ls\<lparr>chunks := chunks ls @ map fst cs, lastUpdateTime := t,
                               ui := (ui ls)\<lparr>streamingMessage := sm\<rparr>\<rparr>)"
  using assms
proof (induction cs arbitrary: ls)
  case Nil
  have "ls = ls\<lparr>chunks := chunks ls @ map fst [], lastUpdateTime := lastUpdateTime ls,
                 ui := (ui ls)\<lparr>streamingMessage := streamingMessage (ui ls)\<rparr>\<rparr>"
    by simp
  then show ?case by (metis append_Nil list.simps(8))
next
  case (Cons p cs)
  obtain c now where p: "p = (c, now)" by (cases p)
  let ?ls1 = "ls\<lparr>chunks := chunks ls @ [c]\<rparr>"
  let ?acc = "concat (chunks ?ls1)"
  have full: "concat (chunks ls @ map fst (p # cs)) = ?acc @ concat (map fst cs)"
    by (simp add: p)
  have nm: "\<not> includes_str ?acc MARKER"
    using Cons.prems includes_str_append[of ?acc MARKER "concat (map fst cs)"] unfolding full by blast
  define ls2 where "ls2 = (if now - lastUpdateTime ?ls1 \<ge> UPDATE_INTERVAL
      then ?ls1\<lparr>ui := (ui ?ls1)\<lparr>streamingMessage := ?acc\<rparr>, lastUpdateTime := now\<rparr>
      else ?ls1)"
  have step: "read_loop (map (\<lambda>(c, t). Chunk c t) (p # cs) @ rest) ls =
      read_loop (map (\<lambda>(c, t). Chunk c t) cs @ rest) ls2"
    using nm by (simp add: p ls2_def Let_def)
  have ch2: "chunks ls2 = chunks ls @ [c]" by (simp add: ls2_def)
  have "\<not> includes_str (concat (chunks ls2 @ map fst cs)) MARKER"
    using Cons.prems by (simp add: ch2 p)
  from Cons.IH[OF this] obtain sm t where
    r: "read_loop (map (\<lambda>(c, t). Chunk c t) cs @ rest) ls2 =
        read_loop rest (ls2\<lparr>chunks := chunks ls2 @ map fst cs, lastUpdateTime := t,
                              ui := (ui ls2)\<lparr>streamingMessage := sm\<rparr>\<rparr>)" by blast
  have "ls2\<lparr>chunks := chunks ls2 @ map fst cs, lastUpdateTime := t,
             ui := (ui ls2)\<lparr>streamingMessage := sm\<rparr>\<rparr> =
        ls\<lparr>chunks := chunks ls @ map fst (p # cs), lastUpdateTime := t,
             ui := (ui ls)\<lparr>streamingMessage := sm\<rparr>\<rparr>"
    by (simp add: ls2_def p)
  with step r show ?case by metis
qed

lemma read_loop_marker:
  assumes "includes_str (concat (chunks ls) @ c) MARKER"
    and "split_str MARKER (concat (chunks ls) @ c) = a # b # r"
  shows "read_loop (Chunk c now # rest) ls =
     (None, ls\<lparr>chunks := chunks ls @ [c],
               ui := apply_metadata (Some b) ((ui ls)\<lparr>streamingMessage := a\<rparr>)\<rparr>)"
  using assms by (simp add: Let_def first_part_def second_part_def)

lemma read_loop_control:
  assumes "chunks ls1 = chunks ls2"
  shows "fst (read_loop body ls1) = fst (read_loop body ls2) \<and>
         chunks (snd (read_loop body ls1)) = chunks (snd (read_loop body ls2))"
  using assms
proof (induction body arbitrary: ls1 ls2)
  case Nil
  then show ?case by simp
next
  case (Cons ev body)
  show ?case
  proof (cases ev)
    case (ReadRejected e)
    with Cons.prems show ?thesis by simp
  next
    case (Chunk c now)
    let ?acc = "concat (chunks ls1 @ [c])"
    show ?thesis
    proof (cases "includes_str ?acc MARKER")
      case True
      with Cons.prems Chunk show ?thesis by (simp add: Let_def)
    next
      case False
      define n1 where "n1 = (if now - lastUpdateTime ls1 \<ge> UPDATE_INTERVAL
          then ls1\<lparr>chunks := chunks ls1 @ [c], ui := (ui ls1)\<lparr>streamingMessage := ?acc\<rparr>, lastUpdateTime := now\<rparr>
          else ls1\<lparr>chunks := chunks ls1 @ [c]\<rparr>)"
      define n2 where "n2 = (if now - lastUpdateTime ls2 \<ge> UPDATE_INTERVAL
          then ls2\<lparr>chunks := chunks ls2 @ [c], ui := (ui ls2)\<lparr>streamingMessage := ?acc\<rparr>, lastUpdateTime := now\<rparr>
          else ls2\<lparr>chunks := chunks ls2 @ [c]\<rparr>)"
      have s1: "read_loop (ev # body) ls1 = read_loop body n1"
        using False by (simp add: Chunk n1_def Let_def)
      have s2: "read_loop (ev # body) ls2 = read_loop body n2"
        using False Cons.prems by (simp add: Chunk n2_def Let_def)
      have "chunks n1 = chunks n2" using Cons.prems by (simp add: n1_def n2_def)
      from Cons.IH[OF this] show ?thesis unfolding s1 s2 .
    qed
  qed
qed

lemma handleSubmit_refused:
  "trim (inputMessage st) = [] \<or> isLoading st \<Longrightarrow> handleSubmit env st = st"
  by (simp add: handleSubmit_def)

lemma handleSubmit_fetch_rejected:
  assumes "trim (inputMessage st) \<noteq> []" "\<not> isLoading st" "response env = FetchRejected e"
  shows "handleSubmit env st = catch_block env e (after_submission env st)"
  using assms by (simp add: handleSubmit_def after_submission_def Let_def)

lemma handleSubmit_not_ok:
  assumes "trim (inputMessage st) \<noteq> []" "\<not> isLoading st" "response env = Response False body"
  shows "handleSubmit env st = catch_block env OtherError (after_submission env st)"
  using assms by (simp add: handleSubmit_def after_submission_def Let_def)

lemma handleSubmit_read_rejected:
  assumes "trim (inputMessage st) \<noteq> []" "\<not> isLoading st" "response env = Response True body"
    and "read_loop body (loop_start env st) = (Some e, ls)"
  shows "handleSubmit env st = catch_block env e (ui ls)"
  using assms by (simp add: handleSubmit_def after_submission_def loop_start_def Let_def)

lemma handleSubmit_finalized:
  assumes "trim (inputMessage st) \<noteq> []" "\<not> isLoading st" "response env = Response True body"
    and "read_loop body (loop_start env st) = (None, ls)"
  shows "handleSubmit env st =
     (ui ls)\<lparr>messages := map (finalize_message (aiMessageId env) (finalText_of (chunks ls)))
                            (messages (ui ls)),
             streamingMessage := [],
             conversationHistory := slice_neg 10
               (conversationHistory (ui ls) @ [assistantTurn (finalText_of (chunks ls))]),
             isLoading := False\<rparr>"
  using assms
  by (simp add: handleSubmit_def after_submission_def loop_start_def Let_def finally_block_def)

lemma slice_neg_rev: "slice_neg k xs = rev (take k (rev xs))"
  by (simp add: slice_neg_def take_rev)

lemma slice_neg_append_slice: "slice_neg k (slice_neg k xs @ ys) = slice_neg k (xs @ ys)"
  by (simp add: slice_neg_rev take_append min_def)

lemma slice_neg_short: "length xs \<le> k \<Longrightarrow> slice_neg k xs = xs"
  by (simp add: slice_neg_def)

lemma handleSubmit_history:
  "conversationHistory (handleSubmit env st) =
     (if appended_turns env st = [] then conversationHistory st
      else slice_neg 10 (conversationHistory st @ appended_turns env st))"
proof (cases "trim (inputMessage st) = [] \<or> isLoading st")
  case True
  then show ?thesis by (simp add: handleSubmit_refused appended_turns_def)
next
  case False
  then have acc: "trim (inputMessage st) \<noteq> []" "\<not> isLoading st" by simp_all
  let ?u = "userTurn (trim (inputMessage st))"
  have h3: "conversationHistory (after_submission env st) = slice_neg 10 (conversationHistory st @ [?u])"
    by (simp add: after_submission_def)
  show ?thesis
  proof (cases "response env")
    case (FetchRejected e)
    have "conversationHistory (handleSubmit env st) = slice_neg 10 (conversationHistory st @ [?u])"
      unfolding handleSubmit_fetch_rejected[OF acc FetchRejected]
      by (simp add: catch_block_def finally_block_def h3)
    moreover have "appended_turns env st = [?u]"
      using acc FetchRejected by (simp add: appended_turns_def)
    ultimately show ?thesis by simp
  next
    case (Response ok body)
    show ?thesis
    proof (cases ok)
      case False
      have "conversationHistory (handleSubmit env st) = slice_neg 10 (conversationHistory st @ [?u])"
        using handleSubmit_not_ok[OF acc] Response False
        by (simp add: catch_block_def finally_block_def h3)
      moreover have "appended_turns env st = [?u]"
        using acc Response False by (simp add: appended_turns_def)
      ultimately show ?thesis by simp
    next
      case True
      with Response have resp: "response env = Response True body" by simp
      obtain r ls where rl: "read_loop body (loop_start env st) = (r, ls)"
        by (cases "read_loop body (loop_start env st)")
      let ?l0 = "\<lparr>chunks = [], lastUpdateTime = loopStart env, ui = st\<rparr>"
      have "chunks (loop_start env st) = chunks ?l0" by (simp add: loop_start_def)
      from read_loop_control[OF this, of body]
      have ctl: "fst (read_loop body ?l0) = r" "chunks (snd (read_loop body ?l0)) = chunks ls"
        using rl by simp_all
      have hist: "conversationHistory (ui ls) = slice_neg 10 (conversationHistory st @ [?u])"
        using read_loop_frame[OF rl] by (simp add: loop_start_def h3)
      show ?thesis
      proof (cases r)
        case (Some e)
        have "conversationHistory (handleSubmit env st) = slice_neg 10 (conversationHistory st @ [?u])"
          using handleSubmit_read_rejected[OF acc resp] rl Some
          by (simp add: catch_block_def finally_block_def hist)
        moreover have "appended_turns env st = [?u]"
          using acc resp ctl Some
          by (auto simp: appended_turns_def split: prod.splits)
        ultimately show ?thesis by simp
      next
        case None
        let ?a = "assistantTurn (finalText_of (chunks ls))"
        have "conversationHistory (handleSubmit env st) =
            slice_neg 10 (slice_neg 10 (conversationHistory st @ [?u]) @ [?a])"
          using handleSubmit_finalized[OF acc resp] rl None by (simp add: hist)
        also have "\<dots> = slice_neg 10 (conversationHistory st @ [?u, ?a])"
          by (simp add: slice_neg_append_slice)
        finally have "conversationHistory (handleSubmit env st) =
            slice_neg 10 (conversationHistory st @ [?u, ?a])" .
        moreover have "appended_turns env st = [?u, ?a]"
          using acc resp ctl None
          by (auto simp: appended_turns_def split: prod.splits)
        ultimately show ?thesis by simp
      qed
    qed
  qed
qed

lemma run_submits_history:
  assumes "conversationHistory st = slice_neg 10 lg"
  shows "conversationHistory (run_submits st ss) = slice_neg 10 (lg @ turn_log st ss)"
  using assms
proof (induction ss arbitrary: st lg)
  case Nil
  then show ?case by simp
next
  case (Cons p ss)
  obtain inp env where pe: "p = (inp, env)" by (cases p) auto
  let ?st = "st\<lparr>inputMessage := inp\<rparr>"
  let ?ap = "appended_turns env ?st"
  have "conversationHistory (handleSubmit env ?st) = slice_neg 10 (lg @ ?ap)"
  proof (cases "?ap = []")
    case True
    then show ?thesis using Cons.prems by (simp add: handleSubmit_history)
  next
    case False
    then have "conversationHistory (handleSubmit env ?st) = slice_neg 10 (slice_neg 10 lg @ ?ap)"
      using Cons.prems by (simp add: handleSubmit_history)
    then show ?thesis by (simp add: slice_neg_append_slice)
  qed
  from Cons.IH[OF this] show ?case by (simp add: pe)
qed

lemma user_id_not_ai: "msg_id (userMessage env m) \<noteq> aiMessageId env'"
  by (simp add: userMessage_def aiMessageId_def lit_def)

lemma finalize_user: "finalize_message (aiMessageId env') t (userMessage env m) = userMessage env m"
  using user_id_not_ai[of env m env'] by (simp add: finalize_message_def)

lemma finalize_placeholder:
  "finalize_message (aiMessageId env) t (aiPlaceholder env) =
     (aiPlaceholder env)\<lparr>message := t, streaming := Some False\<rparr>"
  by (simp add: finalize_message_def aiPlaceholder_def)

lemma apply_metadata_frame:
  "apply_metadata mp st = st\<lparr>suggestions := suggestions (apply_metadata mp st)\<rparr>"
  using apply_metadata_cases[of mp st] by auto

lemma apply_metadata_update:
  "suggestions (apply_metadata mp (st\<lparr>streamingMessage := x\<rparr>)) = suggestions (apply_metadata mp st)"
  by (auto simp: apply_metadata_def split: option.splits sum.splits)

lemma finalText_of_first:
  assumes "split_str MARKER (concat xs) = a # r"
  shows "finalText_of xs = a"
  using assms by (simp add: finalText_of_def first_part_def)

lemma handleSubmit_marker:
  assumes acc: "trim (inputMessage st) \<noteq> []" "\<not> isLoading st"
    and resp: "response env = Response True (map (\<lambda>(c, t). Chunk c t) cs @ Chunk c now # rest)"
    and nm: "\<not> includes_str (concat (map fst cs)) MARKER"
    and inc: "includes_str (concat (map fst cs) @ c) MARKER"
    and sp: "split_str MARKER (concat (map fst cs) @ c) = a # b # r"
  shows "handleSubmit env st =
     (after_submission env st)
       \<lparr>suggestions := suggestions (apply_metadata (Some b) (after_submission env st)),
        messages := map (finalize_message (aiMessageId env) a) (messages st) @
          [userMessage env (trim (inputMessage st)),
           (aiPlaceholder env)\<lparr>message := a, streaming := Some False\<rparr>],
        streamingMessage := [],
        conversationHistory := slice_neg 10
          (conversationHistory st @ [userTurn (trim (inputMessage st)), assistantTurn a]),
        isLoading := False\<rparr>"
proof -
  let ?l0 = "loop_start env st"
  have "\<not> includes_str (concat (chunks ?l0 @ map fst cs)) MARKER"
    using nm by (simp add: loop_start_def)
  from read_loop_no_marker[OF this, of "Chunk c now # rest"]
  obtain sm t where rl1: "read_loop (map (\<lambda>(c, t). Chunk c t) cs @ Chunk c now # rest) ?l0 =
      read_loop (Chunk c now # rest) (?l0\<lparr>chunks := chunks ?l0 @ map fst cs, lastUpdateTime := t,
                               ui := (ui ?l0)\<lparr>streamingMessage := sm\<rparr>\<rparr>)"
    by auto
  let ?l1 = "?l0\<lparr>chunks := chunks ?l0 @ map fst cs, lastUpdateTime := t,
                  ui := (ui ?l0)\<lparr>streamingMessage := sm\<rparr>\<rparr>"
  have c1: "concat (chunks ?l1) @ c = concat (map fst cs) @ c" by (simp add: loop_start_def)
  have rl2: "read_loop (Chunk c now # rest) ?l1 =
     (None, ?l1\<lparr>chunks := chunks ?l1 @ [c],
               ui := apply_metadata (Some b) ((ui ?l1)\<lparr>streamingMessage := a\<rparr>)\<rparr>)"
    by (rule read_loop_marker) (simp_all only: c1 inc sp)
  let ?ls = "?l1\<lparr>chunks := chunks ?l1 @ [c],
               ui := apply_metadata (Some b) ((ui ?l1)\<lparr>streamingMessage := a\<rparr>)\<rparr>"
  have rl: "read_loop (map (\<lambda>(c, t). Chunk c t) cs @ Chunk c now # rest) ?l0 = (None, ?ls)"
    using rl1 rl2 by simp
  have ft: "finalText_of (chunks ?ls) = a"
    by (rule finalText_of_first[where r = "b # r"]) (simp add: loop_start_def sp)
  let ?X = "(ui ?l1)\<lparr>streamingMessage := a\<rparr>"
  have uils: "ui ?ls = ?X\<lparr>suggestions := suggestions (apply_metadata (Some b) ?X)\<rparr>"
    using apply_metadata_frame[of "Some b" ?X] by simp
  have sg: "suggestions (apply_metadata (Some b) ?X) =
      suggestions (apply_metadata (Some b) (after_submission env st))"
    by (auto simp: apply_metadata_def loop_start_def split: option.splits sum.splits)
  have sl: "slice_neg 10 (slice_neg 10 (conversationHistory st @ [userTurn (trim (inputMessage st))]) @ [assistantTurn a])
      = slice_neg 10 (conversationHistory st @ [userTurn (trim (inputMessage st)), assistantTurn a])"
    by (simp add: slice_neg_append_slice)
  show ?thesis
    unfolding handleSubmit_finalized[OF acc resp rl] ft uils sg
    by (simp add: loop_start_def after_submission_def finalize_user finalize_placeholder sl)
qed

lemma split_at_first:
  assumes "index_of MARKER s = Some i" and "split_str MARKER (drop (i + length MARKER) s) = mp # further"
  shows "split_str MARKER s = take i s # mp # further" and "includes_str s MARKER"
  using assms split_str_found[OF MARKER_nonempty assms(1)] by (simp_all add: includes_str_def)

lemma scenario_result:
  "messages (handleSubmit (scenario_env scenario_chunks) scenario_state) =
     [userMessage (scenario_env scenario_chunks) (lit ''What are the symptoms of flu?''),
      (aiPlaceholder (scenario_env scenario_chunks))
        \<lparr>message := lit ''## Flu\<newline>**Fever**\<newline>\<newline>'', streaming := Some False\<rparr>] \<and>
   suggestions (handleSubmit (scenario_env scenario_chunks) scenario_state) = JArr []"
proof -
  let ?env = "scenario_env scenario_chunks"
  let ?cs = "[(lit ''## Flu\<newline>'', 1010::nat), (lit ''**Fever**\<newline>'', 1020)]"
  let ?c = "lit ''\<newline>___METADATA___\<newline>''"
  have t: "trim (inputMessage scenario_state) = lit ''What are the symptoms of flu?''"
    by (simp add: scenario_state_def init_state_def trim_def is_space_def lit_def)
  have a1: "trim (inputMessage scenario_state) \<noteq> []" unfolding t by (simp add: lit_def)
  have a2: "\<not> isLoading scenario_state" by (simp add: scenario_state_def init_state_def)
  have a3: "response ?env = Response True
      (map (\<lambda>(c, t). Chunk c t) ?cs @ Chunk ?c 1030 #
         [Chunk (lit ''{\"suggestions\":[\"How long does it last?\"],\"done\":true}'') 1040])"
    by (simp add: scenario_env_def scenario_chunks_def)
  have a4: "\<not> includes_str (concat (map fst ?cs)) MARKER"
    by (simp add: includes_str_def MARKER_def lit_def)
  have a5: "index_of MARKER (concat (map fst ?cs) @ ?c) = Some 18"
    by (simp add: MARKER_def lit_def)
  have a6: "split_str MARKER (drop (18 + length MARKER) (concat (map fst ?cs) @ ?c)) = [10] # []"
    by (simp add: MARKER_def lit_def split_str.simps)
  have a7: "JSON_parse [10] = None"
    by (simp add: JSON_parse_def skip_ws_def json_ws_def)
  have tk: "take 18 (concat (map fst ?cs) @ ?c) = lit ''## Flu\<newline>**Fever**\<newline>\<newline>''"
    by (simp add: lit_def)
  have m0: "messages scenario_state = []" by (simp add: scenario_state_def init_state_def)
  have sp: "split_str MARKER (concat (map fst ?cs) @ ?c) = take 18 (concat (map fst ?cs) @ ?c) # [10] # []"
    and inc: "includes_str (concat (map fst ?cs) @ ?c) MARKER"
    using split_at_first[OF a5 a6] by simp_all
  have "suggestions (apply_metadata (Some [10]) (after_submission ?env scenario_state)) = JArr []"
    using a7 by (simp add: apply_metadata_parse_error after_submission_def)
  then show ?thesis
    unfolding handleSubmit_marker[OF a1 a2 a3 a4 inc sp] tk t m0 by simp
qed

lemma sentinel_split_parts:
  assumes "s = doc @ SENTINEL @ js" and "\<not> includes_str doc MARKER" and "\<not> includes_str js MARKER"
  shows "includes_str s MARKER" and "split_str MARKER s = (doc @ [10]) # (10 # js) # []"
proof -
  have s: "s = doc @ 10 # MARKER @ (10 # js)" by (simp add: assms(1) SENTINEL_MARKER)
  have i: "index_of MARKER s = Some (Suc (length doc))"
    unfolding s using MARKER_nonempty MARKER_no_newline assms(2) by (rule index_of_after_stop)
  have d: "drop (Suc (length doc + length MARKER)) s = 10 # js" by (simp add: s)
  have t: "take (Suc (length doc)) s = doc @ [10]" by (simp add: s)
  have "\<not> includes_str (10 # js) MARKER"
    using includes_after_stop[OF MARKER_no_newline MARKER_nonempty, of js] assms(3) by simp
  then have r: "split_str MARKER (10 # js) = [10 # js]"
    by (rule split_str_hd_not_included[OF MARKER_nonempty])
  show "includes_str s MARKER" using i by (simp add: includes_str_def)
  show "split_str MARKER s = (doc @ [10]) # (10 # js) # []"
    using split_str_found[OF MARKER_nonempty i] by (simp add: d t r)
qed

lemma scenario_json:
  \<open>JSON_parse (lit ''{"suggestions":["How long does it last?"],"done":true}'') =
     Some (JObj [(lit ''suggestions'', JArr [JStr (lit ''How long does it last?'')]),
                 (lit ''done'', JBool True)])\<close>
  by (simp add: JSON_parse_def skip_ws_def json_ws_def lit_def cons_char_def parse_keyword_def)


section \<open>Reading the serialization back\<close>

text \<open>
  \<open>JSON.parse\<close> reads what \<open>JSON.stringify\<close> wrote: every string from its quoted form,
  the array of the suggestions, and the metadata object member by member.
\<close>

lemma hex_value_digit: "d < 16 \<Longrightarrow> hex_value (hex_digit d) = Some d"
  by (auto simp: hex_value_def hex_digit_def)

lemma unicode_escape_value_roundtrip:
  assumes "c < 65536"
  shows "unicode_escape_value (hex_digit (c div 4096 mod 16)) (hex_digit (c div 256 mod 16))
           (hex_digit (c div 16 mod 16)) (hex_digit (c mod 16)) = Some c"
proof -
  define h0 where "h0 = c mod 16"
  define h1 where "h1 = c div 16 mod 16"
  define h2 where "h2 = c div 256 mod 16"
  define h3 where "h3 = c div 4096 mod 16"
  define d1 where "d1 = c div 16"
  define d2 where "d2 = c div 256"
  define d3 where "d3 = c div 4096"
  have small: "h0 < 16" "h1 < 16" "h2 < 16" "h3 < 16" by (simp_all add: h0_def h1_def h2_def h3_def)
  have s1: "c = d1 * 16 + h0" by (simp add: d1_def h0_def)
  have "d2 = d1 div 16" unfolding d2_def d1_def by (simp add: div_mult2_eq)
  then have s2: "d1 = d2 * 16 + h1" by (simp add: h1_def d1_def)
  have "d3 = d2 div 16" unfolding d3_def d2_def by (simp add: div_mult2_eq)
  then have s3: "d2 = d3 * 16 + h2" by (simp add: h2_def d2_def)
  have "d3 < 16" using assms s1 s2 s3 by linarith
  then have s4: "d3 = h3" by (simp add: h3_def d3_def)
  have e: "4096 * h3 + 256 * h2 + 16 * h1 + h0 = c" using s1 s2 s3 s4 by simp
  show ?thesis
    using small e
    by (simp add: unicode_escape_value_def hex_value_digit flip: h0_def h1_def h2_def h3_def)
qed

lemma psb_unicode_escape:
  assumes "c < 65536"
  shows "parse_string_body (unicode_escape c @ rest) = cons_char c (parse_string_body rest)"
  using unicode_escape_value_roundtrip[OF assms] by (simp add: unicode_escape_def)

lemma psb_quote_unit:
  "parse_string_body (quote_unit c @ rest) = cons_char c (parse_string_body rest)"
proof (cases "c < 32")
  case True
  then have "c < 65536" by simp
  from psb_unicode_escape[OF this, of rest] True show ?thesis
    by (auto simp: quote_unit_def simple_escape_def)
next
  case False
  then show ?thesis by (auto simp: quote_unit_def simple_escape_def)
qed

lemma psb_quote_body:
  "parse_string_body (quote_body s @ 34 # rest) = Some (s, rest)"
proof (induction s rule: quote_body.induct)
  case 1
  then show ?case by simp
next
  case (2 c)
  show ?case
  proof (cases "is_high_surrogate c \<or> is_low_surrogate c")
    case True
    then have "c < 65536" by (auto simp: is_high_surrogate_def is_low_surrogate_def)
    from psb_unicode_escape[OF this, of "34 # rest"] True show ?thesis
      by (simp add: cons_char_def)
  next
    case False
    then show ?thesis using psb_quote_unit[of c "34 # rest"] by (simp add: cons_char_def)
  qed
next
  case (3 c d r)
  show ?case
  proof (cases "is_high_surrogate c")
    case True
    then have c: "c < 65536" "c \<noteq> 34" "c \<noteq> 92" "\<not> c < 32"
      by (auto simp: is_high_surrogate_def)
    show ?thesis
    proof (cases "is_low_surrogate d")
      case T: True
      then have d: "d \<noteq> 34" "d \<noteq> 92" "\<not> d < 32" by (auto simp: is_low_surrogate_def)
      from 3(1)[OF True T] True T c d show ?thesis by (simp add: cons_char_def)
    next
      case False
      from 3(2)[OF True False] True False psb_unicode_escape[OF c(1), of "quote_body (d # r) @ 34 # rest"]
      show ?thesis by (simp add: cons_char_def)
    qed
  next
    case nh: False
    show ?thesis
    proof (cases "is_low_surrogate c")
      case True
      then have "c < 65536" by (auto simp: is_low_surrogate_def)
      from 3(3)[OF nh True] nh True psb_unicode_escape[OF this, of "quote_body (d # r) @ 34 # rest"]
      show ?thesis by (simp add: cons_char_def)
    next
      case False
      from 3(4)[OF nh False] nh False psb_quote_unit[of c "quote_body (d # r) @ 34 # rest"]
      show ?thesis by (simp add: cons_char_def)
    qed
  qed
qed

lemma parse_value_string:
  "parse_value (Suc n) (QuoteJSONString s @ rest) = Some (JStr s, rest)"
  by (simp add: QuoteJSONString_def psb_quote_body)

lemma skip_ws_non_ws: "\<not> json_ws c \<Longrightarrow> skip_ws (c # r) = c # r"
  by (simp add: skip_ws_def)

lemma QuoteJSONString_Cons: "QuoteJSONString s = 34 # quote_body s @ [34]"
  by (simp add: QuoteJSONString_def)

lemma parse_elements_last:
  assumes "parse_value (Suc n) s = Some (v, 93 # r)"
  shows "parse_elements (Suc n) s = Some ([v], r)"
  using assms by (simp add: skip_ws_non_ws json_ws_def)

lemma parse_elements_more:
  assumes "parse_value (Suc n) s = Some (v, 44 # ds)"
    and "parse_elements n (skip_ws ds) = Some (vs, r)"
  shows "parse_elements (Suc n) s = Some (v # vs, r)"
  using assms by (simp add: skip_ws_non_ws json_ws_def)

lemma skip_ws_strings:
  "skip_ws (join_str [44] (map QuoteJSONString (y # ys)) @ rest) =
     join_str [44] (map QuoteJSONString (y # ys)) @ rest"
  by (cases ys) (simp_all add: QuoteJSONString_Cons skip_ws_non_ws json_ws_def)

lemma parse_elements_strings:
  "parse_elements (Suc (length xs)) (join_str [44] (map QuoteJSONString (x # xs)) @ 93 # rest)
     = Some (map JStr (x # xs), rest)"
proof (induction xs arbitrary: x)
  case Nil
  have "parse_value (Suc 0) (QuoteJSONString x @ 93 # rest) = Some (JStr x, 93 # rest)"
    by (rule parse_value_string)
  from parse_elements_last[OF this] show ?case by simp
next
  case (Cons y ys)
  have v: "parse_value (Suc (Suc (length ys)))
      (QuoteJSONString x @ 44 # join_str [44] (map QuoteJSONString (y # ys)) @ 93 # rest)
      = Some (JStr x, 44 # join_str [44] (map QuoteJSONString (y # ys)) @ 93 # rest)"
    by (rule parse_value_string)
  have j: "join_str [44] (map QuoteJSONString (x # y # ys)) @ 93 # rest =
      QuoteJSONString x @ 44 # join_str [44] (map QuoteJSONString (y # ys)) @ 93 # rest"
    by simp
  have r: "parse_elements (Suc (length ys))
      (skip_ws (join_str [44] (map QuoteJSONString (y # ys)) @ 93 # rest)) =
      Some (map JStr (y # ys), rest)"
    unfolding skip_ws_strings by (rule Cons.IH)
  from parse_elements_more[OF v r] show ?case unfolding j by simp
qed

lemma parse_value_array:
  assumes "skip_ws cs = d # ds" and "d \<noteq> 93" and "parse_elements n (d # ds) = Some (vs, r)"
  shows "parse_value (Suc n) (91 # cs) = Some (JArr vs, r)"
  using assms by simp

lemma parse_value_string_array:
  "parse_value (Suc (Suc (length xs))) (91 # join_str [44] (map QuoteJSONString xs) @ 93 # rest)
     = Some (JArr (map JStr xs), rest)"
proof (cases xs)
  case Nil
  then show ?thesis by (simp add: skip_ws_non_ws json_ws_def)
next
  case (Cons x ys)
  obtain t where t: "join_str [44] (map QuoteJSONString (x # ys)) @ 93 # rest = 34 # t"
    by (cases ys) (simp_all add: QuoteJSONString_Cons)
  have sk: "skip_ws (join_str [44] (map QuoteJSONString (x # ys)) @ 93 # rest) = 34 # t"
    unfolding t by (simp add: skip_ws_non_ws json_ws_def)
  have le: "Suc (length ys) \<le> Suc (length xs)" by (simp add: Cons)
  have pe: "parse_elements (Suc (length xs)) (34 # t) = Some (map JStr (x # ys), rest)"
    by (rule parse_fuel_le(2)[OF le parse_elements_strings[of ys x rest, unfolded t]])
  have ne: "(34::nat) \<noteq> 93" by simp
  from parse_value_array[OF sk ne pe] show ?thesis unfolding Cons .
qed

lemma parse_members_more:
  assumes "parse_value (Suc n) (skip_ws r1) = Some (v, 44 # r2)"
    and "parse_members n (skip_ws r2) = Some (kvs, r')"
  shows "parse_members (Suc n) (QuoteJSONString key @ 58 # r1) = Some ((key, v) # kvs, r')"
  using assms by (simp add: QuoteJSONString_Cons psb_quote_body skip_ws_non_ws json_ws_def)

lemma parse_members_last:
  assumes "parse_value (Suc n) (skip_ws r1) = Some (v, 125 # r2)"
  shows "parse_members (Suc n) (QuoteJSONString key @ 58 # r1) = Some ([(key, v)], r2)"
  using assms by (simp add: QuoteJSONString_Cons psb_quote_body skip_ws_non_ws json_ws_def)

lemma parse_value_object:
  assumes "parse_members n (QuoteJSONString key @ r) = Some (kvs, r')"
  shows "parse_value (Suc n) (123 # QuoteJSONString key @ r) = Some (JObj kvs, r')"
  using assms by (simp add: QuoteJSONString_Cons skip_ws_non_ws json_ws_def)

lemma parse_value_bool:
  "parse_value (Suc n) ((if b then lit ''true'' else lit ''false'') @ rest) = Some (JBool b, rest)"
  by (simp add: parse_keyword_def lit_def)

lemma skip_ws_quoted: "skip_ws (QuoteJSONString s @ r) = QuoteJSONString s @ r"
  by (simp add: QuoteJSONString_Cons skip_ws_non_ws json_ws_def)

lemma skip_ws_bool:
  "skip_ws ((if b then lit ''true'' else lit ''false'') @ rest) =
     (if b then lit ''true'' else lit ''false'') @ rest"
  by (simp add: lit_def skip_ws_non_ws json_ws_def)

lemma skip_ws_bracket: "skip_ws (91 # r) = 91 # r"
  by (simp add: skip_ws_non_ws json_ws_def)

lemma JSON_stringify_metadata_shape:
  \<open>JSON_stringify_metadata m =
     123 # QuoteJSONString (lit ''suggestions'') @ 58 #
       91 # join_str [44] (map QuoteJSONString (meta_suggestions m)) @ 93 # 44 #
     QuoteJSONString (lit ''done'') @ 58 #
       (if meta_done m then lit ''true'' else lit ''false'') @ 44 #
     QuoteJSONString (lit ''timestamp'') @ 58 # QuoteJSONString (meta_timestamp m) @ 44 #
     QuoteJSONString (lit ''category'') @ 58 # QuoteJSONString (meta_category m) @ [125]\<close>
  by (simp add: JSON_stringify_metadata_def QuoteJSONString_def lit_def quote_unit_def
      is_high_surrogate_def is_low_surrogate_def)

lemma parse_value_metadata:
  \<open>parse_value (length (meta_suggestions m) + 5) (JSON_stringify_metadata m) =
     Some (JObj [(lit ''suggestions'', JArr (map JStr (meta_suggestions m))),
                 (lit ''done'', JBool (meta_done m)),
                 (lit ''timestamp'', JStr (meta_timestamp m)),
                 (lit ''category'', JStr (meta_category m))], [])\<close>
proof -
  define k where "k = length (meta_suggestions m)"
  have m4: "parse_members (Suc k) (QuoteJSONString (lit ''category'') @ 58 #
              QuoteJSONString (meta_category m) @ [125]) =
            Some ([(lit ''category'', JStr (meta_category m))], [])"
    by (rule parse_members_last) (simp only: skip_ws_quoted parse_value_string)
  have m3: "parse_members (Suc (Suc k)) (QuoteJSONString (lit ''timestamp'') @ 58 #
              QuoteJSONString (meta_timestamp m) @ 44 #
              QuoteJSONString (lit ''category'') @ 58 #
              QuoteJSONString (meta_category m) @ [125]) =
            Some ([(lit ''timestamp'', JStr (meta_timestamp m)),
                   (lit ''category'', JStr (meta_category m))], [])"
    apply (rule parse_members_more)
     apply (simp only: skip_ws_quoted parse_value_string)
    apply (simp only: skip_ws_quoted m4)
    done
  have m2: "parse_members (Suc (Suc (Suc k))) (QuoteJSONString (lit ''done'') @ 58 #
              (if meta_done m then lit ''true'' else lit ''false'') @ 44 #
              QuoteJSONString (lit ''timestamp'') @ 58 #
              QuoteJSONString (meta_timestamp m) @ 44 #
              QuoteJSONString (lit ''category'') @ 58 #
              QuoteJSONString (meta_category m) @ [125]) =
            Some ([(lit ''done'', JBool (meta_done m)),
                   (lit ''timestamp'', JStr (meta_timestamp m)),
                   (lit ''category'', JStr (meta_category m))], [])"
    apply (rule parse_members_more)
     apply (simp only: skip_ws_bool parse_value_bool)
    apply (simp only: skip_ws_quoted m3)
    done
  have le: "Suc (Suc k) \<le> Suc (Suc (Suc (Suc k)))" by simp
  have arr: "parse_value (Suc (Suc (Suc (Suc k))))
       (91 # join_str [44] (map QuoteJSONString (meta_suggestions m)) @ 93 # rest) =
       Some (JArr (map JStr (meta_suggestions m)), rest)" for rest
    unfolding k_def
    by (rule parse_fuel_le(1)[OF le[unfolded k_def] parse_value_string_array])
  have m1: "parse_members (Suc (Suc (Suc (Suc k)))) (QuoteJSONString (lit ''suggestions'') @ 58 #
              91 # join_str [44] (map QuoteJSONString (meta_suggestions m)) @ 93 # 44 #
              QuoteJSONString (lit ''done'') @ 58 #
              (if meta_done m then lit ''true'' else lit ''false'') @ 44 #
              QuoteJSONString (lit ''timestamp'') @ 58 #
              QuoteJSONString (meta_timestamp m) @ 44 #
              QuoteJSONString (lit ''category'') @ 58 #
              QuoteJSONString (meta_category m) @ [125]) =
            Some ([(lit ''suggestions'', JArr (map JStr (meta_suggestions m))),
                   (lit ''done'', JBool (meta_done m)),
                   (lit ''timestamp'', JStr (meta_timestamp m)),
                   (lit ''category'', JStr (meta_category m))], [])"
    apply (rule parse_members_more)
     apply (simp only: skip_ws_bracket arr)
    apply (simp only: skip_ws_quoted m2)
    done
  have n: "length (meta_suggestions m) + 5 = Suc (Suc (Suc (Suc (Suc k))))"
    by (simp add: k_def)
  show ?thesis
    unfolding n JSON_stringify_metadata_shape
    by (rule parse_value_object) (rule m1)
qed

lemma skip_ws_stringified: "skip_ws (JSON_stringify_metadata m) = JSON_stringify_metadata m"
  unfolding JSON_stringify_metadata_shape by (simp add: skip_ws_non_ws json_ws_def)

lemma JSON_parse_stringify_metadata:
  \<open>JSON_parse (JSON_stringify_metadata m) =
     Some (JObj [(lit ''suggestions'', JArr (map JStr (meta_suggestions m))),
                 (lit ''done'', JBool (meta_done m)),
                 (lit ''timestamp'', JStr (meta_timestamp m)),
                 (lit ''category'', JStr (meta_category m))])\<close>
  unfolding JSON_parse_fuel_free skip_ws_stringified
  using parse_value_metadata[of m] by (intro exI[of _ "length (meta_suggestions m) + 5"] exI[of _ "[]"]) (simp add: skip_ws_def)


section \<open>Properties of the UTF-8 encoding\<close>

lemma div_mod_step: "(n::nat) div (k * 64) = n div k div 64"
  by (simp add: div_mult2_eq)

lemma utf8_decode_bytes:
  assumes "cp < 1114112"
  shows "utf8_decode (utf8_bytes cp @ rest) = cons_opt cp (utf8_decode rest)"
proof -
  define q1 where "q1 = cp mod 64"
  define q2 where "q2 = cp div 64 mod 64"
  define q3 where "q3 = cp div 4096 mod 64"
  define d1 where "d1 = cp div 64"
  define d2 where "d2 = cp div 4096"
  define d3 where "d3 = cp div 262144"
  have small: "q1 < 64" "q2 < 64" "q3 < 64" by (simp_all add: q1_def q2_def q3_def)
  have s1: "cp = d1 * 64 + q1" by (simp add: d1_def q1_def)
  have "d2 = d1 div 64" unfolding d2_def d1_def using div_mod_step[of cp 64] by simp
  then have s2: "d1 = d2 * 64 + q2" by (simp add: q2_def d1_def)
  have "d3 = d2 div 64" unfolding d3_def d2_def using div_mod_step[of cp 4096] by simp
  then have s3: "d2 = d3 * 64 + q3" by (simp add: q3_def d2_def)
  consider "cp < 128" | "128 \<le> cp" "cp < 2048" | "2048 \<le> cp" "cp < 65536" | "65536 \<le> cp"
    by linarith
  then show ?thesis
  proof cases
    case 1
    then show ?thesis by (simp add: utf8_bytes_def)
  next
    case 2
    have h: "d1 < 32" using 2 s1 by linarith
    have e: "utf8_bytes cp = [192 + d1, 128 + q1]"
      using 2 by (simp add: utf8_bytes_def d1_def q1_def)
    show ?thesis unfolding e using h small s1 by (simp add: is_continuation_def)
  next
    case 3
    have h: "d2 < 16" using 3 s1 s2 by linarith
    have cp: "cp = d2 * 4096 + q2 * 64 + q1" using s1 s2 by simp
    have e: "utf8_bytes cp = [224 + d2, 128 + q2, 128 + q1]"
      using 3 by (simp add: utf8_bytes_def d2_def q1_def q2_def)
    show ?thesis unfolding e using h small cp by (simp add: is_continuation_def)
  next
    case 4
    have h: "d3 < 8" using assms s1 s2 s3 by linarith
    have cp: "cp = d3 * 262144 + q3 * 4096 + q2 * 64 + q1" using s1 s2 s3 by simp
    have e: "utf8_bytes cp = [240 + d3, 128 + q3, 128 + q2, 128 + q1]"
      using 4 by (simp add: utf8_bytes_def d3_def q1_def q2_def q3_def)
    show ?thesis unfolding e using h small cp by (simp add: is_continuation_def)
  qed
qed

lemma utf8_decode_encode:
  assumes "\<forall>cp \<in> set cps. cp < 1114112"
  shows "utf8_decode (concat (map utf8_bytes cps)) = Some cps"
  using assms by (induction cps) (simp_all add: utf8_decode_bytes cons_opt_def)

lemma code_points_bound:
  assumes "\<forall>u \<in> set s. u < 65536"
  shows "\<forall>cp \<in> set (code_points s). cp < 1114112"
  using assms
proof (induction s rule: code_points.induct)
  case 1
  then show ?case by simp
next
  case (2 c)
  then show ?case by simp
next
  case (3 c d r)
  then show ?case
    by (auto simp: is_high_surrogate_def is_low_surrogate_def)
qed

lemma well_formed_units: "well_formed s \<Longrightarrow> \<forall>u \<in> set s. u < 65536"
  by (induction s rule: well_formed.induct)
    (auto simp: is_high_surrogate_def is_low_surrogate_def split: if_splits)

lemma utf16_code_points:
  assumes "well_formed s"
  shows "concat (map utf16_units (code_points s)) = s"
  using assms
proof (induction s rule: well_formed.induct)
  case 1
  then show ?case by simp
next
  case (2 c)
  then show ?case by (simp add: utf16_units_def)
next
  case (3 c d r)
  show ?case
  proof (cases "is_high_surrogate c")
    case True
    with 3 have d: "is_low_surrogate d" and r: "well_formed r" by simp_all
    have "(c - 55296) * 1024 + (d - 56320) = (d - 56320) + (c - 55296) * 1024" by simp
    moreover have "d - 56320 < 1024" using d by (auto simp: is_low_surrogate_def)
    ultimately have dv: "((c - 55296) * 1024 + (d - 56320)) div 1024 = c - 55296"
      and md: "((c - 55296) * 1024 + (d - 56320)) mod 1024 = d - 56320"
      by simp_all
    have "utf16_units (65536 + (c - 55296) * 1024 + (d - 56320)) = [c, d]"
      using True d dv md
      by (simp add: utf16_units_def is_high_surrogate_def is_low_surrogate_def)
    with True d 3(1) r show ?thesis by simp
  next
    case False
    with 3 have "c < 65536" "\<not> is_low_surrogate c" "well_formed (d # r)" by simp_all
    with False 3 show ?thesis by (simp add: utf16_units_def)
  qed
qed

lemma decoded_encode:
  assumes "well_formed s"
  shows "decoded_text (TextEncoder_encode s) = Some s"
proof -
  have "\<forall>cp \<in> set (code_points s). cp < 1114112"
    using well_formed_units[OF assms] by (rule code_points_bound)
  then have "utf8_decode (TextEncoder_encode s) = Some (code_points s)"
    unfolding TextEncoder_encode_def by (rule utf8_decode_encode)
  then show ?thesis by (simp add: decoded_text_def utf16_code_points[OF assms])
qed

lemma well_formed_append: "well_formed a \<Longrightarrow> well_formed b \<Longrightarrow> well_formed (a @ b)"
proof (induction a rule: well_formed.induct)
  case 1
  then show ?case by simp
next
  case (2 c)
  show ?case
  proof (cases b)
    case Nil
    with 2 show ?thesis by simp
  next
    case (Cons x xs)
    from 2(1) have "c < 65536" "\<not> is_high_surrogate c" "\<not> is_low_surrogate c"
      by (simp_all add: is_surrogate_def)
    with 2(2) Cons show ?thesis by simp
  qed
next
  case (3 c d r)
  show ?case
  proof (cases "is_high_surrogate c")
    case True
    with 3(3) have "is_low_surrogate d" "well_formed r" by simp_all
    with True 3(1) 3(4) show ?thesis by simp
  next
    case False
    with 3(3) have "c < 65536" "\<not> is_low_surrogate c" "well_formed (d # r)" by simp_all
    with False 3(2) 3(4) show ?thesis by simp
  qed
qed

lemma well_formed_plain: "\<forall>u \<in> set s. u < 55296 \<Longrightarrow> well_formed s"
  by (induction s rule: well_formed.induct)
    (auto simp: is_surrogate_def is_high_surrogate_def is_low_surrogate_def)

lemma encode_ascii: "\<forall>u \<in> set s. u < 128 \<Longrightarrow> TextEncoder_encode s = s"
proof (induction s rule: code_points.induct)
  case 1
  then show ?case by (simp add: TextEncoder_encode_def)
next
  case (2 c)
  then show ?case
    by (simp add: TextEncoder_encode_def utf8_bytes_def is_surrogate_def is_high_surrogate_def
        is_low_surrogate_def)
next
  case (3 c d r)
  then have c: "c < 128" and "\<forall>u \<in> set (d # r). u < 128" by simp_all
  with 3 have "TextEncoder_encode (d # r) = d # r"
    by (simp add: is_high_surrogate_def is_low_surrogate_def)
  with c show ?case
    by (simp add: TextEncoder_encode_def utf8_bytes_def is_high_surrogate_def is_low_surrogate_def)
qed

lemma encode_lone_surrogate: "TextEncoder_encode [55357] = [239, 191, 189]"
  by (simp add: TextEncoder_encode_def utf8_bytes_def is_surrogate_def is_high_surrogate_def)

lemma encode_surrogate_pair: "TextEncoder_encode [55357, 56832] = [240, 159, 152, 128]"
  by (simp add: TextEncoder_encode_def utf8_bytes_def is_surrogate_def is_high_surrogate_def
      is_low_surrogate_def)


section \<open>The two forms of the confidence token\<close>

lemma spec_token_iff: "spec_token w \<longleftrightarrow> pct_token w \<and> (\<forall>c \<in> set w. \<not> is_space c)"
proof
  assume "spec_token w"
  then obtain ds fr where w: "w = ds @ fr @ [37]" and ds: "ds \<noteq> []" "\<forall>c \<in> set ds. is_digit c"
    and fr: "fr = [] \<or> (\<exists>fs. fr = 46 # fs \<and> fs \<noteq> [] \<and> (\<forall>c \<in> set fs. is_digit c))"
    unfolding spec_token_def by blast
  have "pct_token w"
    unfolding pct_token_def using w ds fr by (intro exI[of _ ds] exI[of _ fr] exI[of _ "[]"]) simp
  moreover have "\<forall>c \<in> set w. \<not> is_space c"
  proof
    fix c assume "c \<in> set w"
    then have "is_digit c \<or> c = 46 \<or> c = 37" using w ds fr by auto
    then show "\<not> is_space c" by (auto simp: is_digit_def is_space_def)
  qed
  ultimately show "pct_token w \<and> (\<forall>c \<in> set w. \<not> is_space c)" ..
next
  assume a: "pct_token w \<and> (\<forall>c \<in> set w. \<not> is_space c)"
  then obtain ds fr ws where w: "w = ds @ fr @ ws @ [37]" and ds: "ds \<noteq> []" "\<forall>c \<in> set ds. is_digit c"
    and fr: "fr = [] \<or> (\<exists>fs. fr = 46 # fs \<and> fs \<noteq> [] \<and> (\<forall>c \<in> set fs. is_digit c))"
    and ws: "\<forall>c \<in> set ws. is_space c"
    unfolding pct_token_def by blast
  have "ws = []"
  proof (cases ws)
    case Nil
    then show ?thesis .
  next
    case (Cons x xs)
    then have "x \<in> set w" "is_space x" using w ws by simp_all
    with a show ?thesis by blast
  qed
  with w ds fr show "spec_token w" unfolding spec_token_def by auto
qed

lemma spec_token_at_match:
  assumes "spec_token_at t i w"
  shows "match_percent_at (drop i t) = Some w \<and> 32 \<notin> set w"
proof -
  from assms have "pct_token w" "\<forall>c \<in> set w. \<not> is_space c" "prefix w (drop i t)"
    by (simp_all add: spec_token_at_def spec_token_iff)
  then show ?thesis by (auto simp: match_percent_at_iff is_space_def)
qed

lemma no_spec_token_50: "\<not> spec_token_at (lit ''50 %'') i w"
proof
  assume a: "spec_token_at (lit ''50 %'') i w"
  then have "i \<le> 4" by (simp add: spec_token_at_def lit_def)
  then consider "i = 0" | "i = 1" | "i = 2" | "i = 3" | "i = 4" by linarith
  then show False
    using spec_token_at_match[OF a]
    by cases (auto simp: lit_def match_percent_at_def match_fraction_def is_digit_def is_space_def)
qed


section \<open>Cancelled reads and a second marker\<close>

lemma read_loop_throttle:
  assumes "\<not> includes_str (concat (chunks ls @ map fst cs)) MARKER"
  shows "read_loop (map (\<lambda>(c, t). Chunk c t) cs @ rest) ls =
           read_loop rest
             (ls\<lparr>chunks := chunks ls @ map fst cs,
                 lastUpdateTime :=
                   fst (throttle cs (concat (chunks ls)) (lastUpdateTime ls, streamingMessage (ui ls))),
                 ui := (ui ls)\<lparr>streamingMessage :=
                   snd (throttle cs (concat (chunks ls)) (lastUpdateTime ls, streamingMessage (ui ls)))\<rparr>\<rparr>)"
  using assms
proof (induction cs arbitrary: ls)
  case Nil
  show ?case by simp
next
  case (Cons p cs)
  obtain c now where p: "p = (c, now)" by (cases p)
  let ?ls1 = "ls\<lparr>chunks := chunks ls @ [c]\<rparr>"
  let ?acc = "concat (chunks ?ls1)"
  have full: "concat (chunks ls @ map fst (p # cs)) = ?acc @ concat (map fst cs)"
    by (simp add: p)
  have nm: "\<not> includes_str ?acc MARKER"
    using Cons.prems includes_str_append[of ?acc MARKER "concat (map fst cs)"] unfolding full by blast
  define ls2 where "ls2 = (if now - lastUpdateTime ?ls1 \<ge> UPDATE_INTERVAL
      then ?ls1\<lparr>ui := (ui ?ls1)\<lparr>streamingMessage := ?acc\<rparr>, lastUpdateTime := now\<rparr>
      else ?ls1)"
  have step: "read_loop (map (\<lambda>(c, t). Chunk c t) (p # cs) @ rest) ls =
      read_loop (map (\<lambda>(c, t). Chunk c t) cs @ rest) ls2"
    using nm by (simp add: p ls2_def Let_def)
  have ch2: "chunks ls2 = chunks ls @ [c]" by (simp add: ls2_def)
  have nm2: "\<not> includes_str (concat (chunks ls2 @ map fst cs)) MARKER"
    using Cons.prems by (simp add: ch2 p)
  have th: "throttle (p # cs) (concat (chunks ls)) (lastUpdateTime ls, streamingMessage (ui ls)) =
      throttle cs (concat (chunks ls2)) (lastUpdateTime ls2, streamingMessage (ui ls2))"
    by (simp add: p ls2_def)
  have "ls2\<lparr>chunks := chunks ls2 @ map fst cs,
             lastUpdateTime :=
               fst (throttle cs (concat (chunks ls2)) (lastUpdateTime ls2, streamingMessage (ui ls2))),
             ui := (ui ls2)\<lparr>streamingMessage :=
               snd (throttle cs (concat (chunks ls2)) (lastUpdateTime ls2, streamingMessage (ui ls2)))\<rparr>\<rparr> =
        ls\<lparr>chunks := chunks ls @ map fst (p # cs),
             lastUpdateTime :=
               fst (throttle (p # cs) (concat (chunks ls)) (lastUpdateTime ls, streamingMessage (ui ls))),
             ui := (ui ls)\<lparr>streamingMessage :=
               snd (throttle (p # cs) (concat (chunks ls)) (lastUpdateTime ls, streamingMessage (ui ls)))\<rparr>\<rparr>"
    unfolding th by (simp add: ls2_def p)
  with step Cons.IH[OF nm2] show ?case by simp
qed

lemma handleSubmit_fetch_aborted:
  assumes "trim (inputMessage st) \<noteq> []" and "\<not> isLoading st"
    and "response env = FetchRejected AbortError"
  shows "handleSubmit env st =
     st\<lparr>inputMessage := [], isLoading := False, suggestions := JArr [],
        messages := messages st @ [userMessage env (trim (inputMessage st))],
        conversationHistory :=
          slice_neg 10 (conversationHistory st @ [userTurn (trim (inputMessage st))])\<rparr>"
  unfolding handleSubmit_fetch_rejected[OF assms]
  by (simp add: catch_block_def finally_block_def after_submission_def)

lemma handleSubmit_read_aborted:
  assumes "trim (inputMessage st) \<noteq> []" and "\<not> isLoading st"
    and "response env =
           Response True (map (\<lambda>(c, t). Chunk c t) cs @ ReadRejected AbortError # rest)"
    and "\<not> includes_str (concat (map fst cs)) MARKER"
  shows "handleSubmit env st =
     st\<lparr>inputMessage := [], isLoading := False, suggestions := JArr [],
        messages := messages st @ [userMessage env (trim (inputMessage st)), aiPlaceholder env],
        streamingMessage := displayed cs (loopStart env) (streamingMessage st),
        conversationHistory :=
          slice_neg 10 (conversationHistory st @ [userTurn (trim (inputMessage st))])\<rparr>"
proof -
  let ?l0 = "loop_start env st"
  have nm: "\<not> includes_str (concat (chunks ?l0 @ map fst cs)) MARKER"
    using assms(4) by (simp add: loop_start_def)
  have rl: "read_loop (map (\<lambda>(c, t). Chunk c t) cs @ ReadRejected AbortError # rest) ?l0 =
      (Some AbortError,
       ?l0\<lparr>chunks := chunks ?l0 @ map fst cs,
           lastUpdateTime :=
             fst (throttle cs (concat (chunks ?l0)) (lastUpdateTime ?l0, streamingMessage (ui ?l0))),
           ui := (ui ?l0)\<lparr>streamingMessage :=
             snd (throttle cs (concat (chunks ?l0)) (lastUpdateTime ?l0, streamingMessage (ui ?l0)))\<rparr>\<rparr>)"
    unfolding read_loop_throttle[OF nm] by simp
  show ?thesis
    unfolding handleSubmit_read_rejected[OF assms(1,2,3) rl]
    by (simp add: catch_block_def finally_block_def loop_start_def after_submission_def displayed_def)
qed

lemma relayed_answer:
  assumes "\<not> isLoading st"
  shows "handleSubmit (scenario_env relayed_chunks) (st\<lparr>inputMessage := lit ''What are the symptoms of flu?''\<rparr>) =
     st\<lparr>inputMessage := [], isLoading := False,
        suggestions := JArr [JStr (lit ''How long does it last?'')],
        messages :=
          map (finalize_message (aiMessageId (scenario_env relayed_chunks))
                 (lit ''## Flu\<newline>**Fever**\<newline>\<newline>'')) (messages st) @
          [userMessage (scenario_env relayed_chunks) (lit ''What are the symptoms of flu?''),
           (aiPlaceholder (scenario_env relayed_chunks))
             \<lparr>message := lit ''## Flu\<newline>**Fever**\<newline>\<newline>'', streaming := Some False\<rparr>],
        streamingMessage := [],
        conversationHistory := slice_neg 10 (conversationHistory st @ flu_turns)\<rparr>"
proof -
  let ?env = "scenario_env relayed_chunks"
  let ?st = "st\<lparr>inputMessage := lit ''What are the symptoms of flu?''\<rparr>"
  let ?cs = "[(lit ''## Flu\<newline>'', 1010::nat), (lit ''**Fever**\<newline>'', 1020)]"
  let ?js = \<open>lit ''{"suggestions":["How long does it last?"],"done":true}''\<close>
  let ?c = \<open>lit ''\<newline>___METADATA___\<newline>{"suggestions":["How long does it last?"],"done":true}''\<close>
  let ?doc = "lit ''## Flu\<newline>**Fever**\<newline>''"
  have t: "trim (inputMessage ?st) = lit ''What are the symptoms of flu?''"
    by (simp add: trim_def is_space_def lit_def)
  have a1: "trim (inputMessage ?st) \<noteq> []" unfolding t by (simp add: lit_def)
  have a2: "\<not> isLoading ?st" using assms by simp
  have a3: "response ?env = Response True (map (\<lambda>(c, t). Chunk c t) ?cs @ Chunk ?c 1030 # [])"
    by (simp add: scenario_env_def relayed_chunks_def)
  have a4: "\<not> includes_str (concat (map fst ?cs)) MARKER"
    by (simp add: includes_str_def MARKER_def lit_def)
  have a5: "concat (map fst ?cs) @ ?c = ?doc @ SENTINEL @ ?js"
    by (simp add: SENTINEL_def lit_def)
  have a6: "\<not> includes_str ?doc MARKER"
    by (simp add: includes_str_def MARKER_def lit_def)
  have a7: "\<not> includes_str ?js MARKER"
    by (simp add: includes_str_def MARKER_def lit_def)
  note sp = sentinel_split_parts[OF a5 a6 a7]
  have p: "JSON_parse (10 # ?js) = Some (JObj [(lit ''suggestions'', JArr [JStr (lit ''How long does it last?'')]),
                 (lit ''done'', JBool True)])"
    by (rule JSON_parse_leading_newline[OF scenario_json])
  have g: "get_suggestions (JObj [(lit ''suggestions'', JArr [JStr (lit ''How long does it last?'')]),
                 (lit ''done'', JBool True)]) = Inr (Some (JArr [JStr (lit ''How long does it last?'')]))"
    by (simp add: get_suggestions_def lit_def)
  have s: "suggestions (apply_metadata (Some (10 # ?js)) (after_submission ?env ?st)) =
      JArr [JStr (lit ''How long does it last?'')]"
    unfolding apply_metadata_suggestions[OF p g, simplified] by simp
  have d: "?doc @ [10] = lit ''## Flu\<newline>**Fever**\<newline>\<newline>''" by (simp add: lit_def)
  show ?thesis
    unfolding handleSubmit_marker[OF a1 a2 a3 a4 sp(1) sp(2)] s d t
    by (simp add: after_submission_def flu_turns_def userTurn_def assistantTurn_def)
qed

lemma busy_state_history:
  "conversationHistory busy_state = flu_turns @ flu_turns @ flu_turns @ flu_turns @ flu_turns \<and>
   \<not> isLoading busy_state \<and> streamingMessage busy_state = []"
proof -
  have r: "five_answers =
      [(lit ''What are the symptoms of flu?'', scenario_env relayed_chunks),
       (lit ''What are the symptoms of flu?'', scenario_env relayed_chunks),
       (lit ''What are the symptoms of flu?'', scenario_env relayed_chunks),
       (lit ''What are the symptoms of flu?'', scenario_env relayed_chunks),
       (lit ''What are the symptoms of flu?'', scenario_env relayed_chunks)]"
    by (simp add: five_answers_def eval_nat_numeral)
  have i: "\<not> isLoading init_state" "conversationHistory init_state = []"
    by (simp_all add: init_state_def)
  show ?thesis
    unfolding busy_state_def r
    by (simp add: relayed_answer i slice_neg_def flu_turns_def)
qed

lemma injected_json:
  \<open>JSON_parse (lit ''{"suggestions":["Injected question?"]}'') =
     Some (JObj [(lit ''suggestions'', JArr [JStr (lit ''Injected question?'')])])\<close>
  by (simp add: JSON_parse_def skip_ws_def json_ws_def lit_def cons_char_def parse_keyword_def)

lemma injected_tail_rejected:
  \<open>JSON_parse (lit ''{"suggestions":["Injected question?"]}___METADATA___'') = None\<close>
  by (simp add: JSON_parse_def skip_ws_def json_ws_def lit_def cons_char_def parse_keyword_def)


section \<open>The relay from end to end\<close>

text \<open>
  The serialization of the metadata is well formed whatever the strings are, their code
  units being below \<open>2^16\<close>: a surrogate without its partner is written as an escape.
  The suggestions are made of code units of the text.
\<close>

lemma hex_digit_small: "d < 16 \<Longrightarrow> hex_digit d < 128"
  by (simp add: hex_digit_def)

lemma well_formed_unicode_escape: "well_formed (unicode_escape c @ t) = well_formed t"
proof -
  have h: "hex_digit (c div 4096 mod 16) < 128" "hex_digit (c div 256 mod 16) < 128"
    "hex_digit (c div 16 mod 16) < 128" "hex_digit (c mod 16) < 128"
    by (simp_all add: hex_digit_small)
  have p: "well_formed (u # d # r) = well_formed (d # r)" if "u < 128" for u d r
    using that by (simp add: is_high_surrogate_def is_low_surrogate_def)
  have q: "well_formed (u # r) = well_formed r" if "u < 128" for u r
    using that by (cases r) (simp_all add: is_surrogate_def is_high_surrogate_def is_low_surrogate_def)
  show ?thesis
    unfolding unicode_escape_def using h by (simp add: q del: well_formed.simps)
qed

lemma well_formed_skip:
  assumes "u < 65536" and "\<not> is_surrogate u"
  shows "well_formed (u # r) = well_formed r"
  using assms by (cases r) (simp_all add: is_surrogate_def)

lemma well_formed_quote_unit:
  assumes "c < 65536" and "\<not> is_surrogate c"
  shows "well_formed (quote_unit c @ t) = well_formed t"
proof -
  have q: "well_formed (u # r) = well_formed r" if "u < 128" for u r
    using that
    by (intro well_formed_skip) (simp_all add: is_surrogate_def is_high_surrogate_def is_low_surrogate_def)
  show ?thesis
    using assms
    by (simp add: quote_unit_def q well_formed_skip well_formed_unicode_escape
        del: well_formed.simps)
qed

lemma well_formed_quote_body:
  assumes "\<forall>u \<in> set s. u < 65536"
  shows "well_formed (quote_body s @ t) = well_formed t"
  using assms
proof (induction s rule: quote_body.induct)
  case 1
  then show ?case by simp
next
  case (2 c)
  then show ?case
    by (simp add: well_formed_unicode_escape well_formed_quote_unit is_surrogate_def)
next
  case (3 c d r)
  then have c: "c < 65536" and d: "d < 65536" and r: "\<forall>u \<in> set r. u < 65536"
    and dr: "\<forall>u \<in> set (d # r). u < 65536" by simp_all
  show ?case
  proof (cases "is_high_surrogate c")
    case True
    show ?thesis
    proof (cases "is_low_surrogate d")
      case T: True
      from 3(1)[OF True T r] True T show ?thesis by simp
    next
      case False
      from 3(2)[OF True False dr] True False show ?thesis
        by (simp add: well_formed_unicode_escape)
    qed
  next
    case nh: False
    show ?thesis
    proof (cases "is_low_surrogate c")
      case True
      from 3(3)[OF nh True dr] nh True show ?thesis
        by (simp add: well_formed_unicode_escape)
    next
      case False
      have "\<not> is_surrogate c" using nh False by (simp add: is_surrogate_def)
      from 3(4)[OF nh False dr] nh False well_formed_quote_unit[OF c this] show ?thesis
        by simp
    qed
  qed
qed

lemma well_formed_ascii: "u < 128 \<Longrightarrow> well_formed (u # r) = well_formed r"
  by (rule well_formed_skip) (simp_all add: is_surrogate_def is_high_surrogate_def is_low_surrogate_def)

lemma well_formed_quoted:
  assumes "\<forall>u \<in> set s. u < 65536"
  shows "well_formed (QuoteJSONString s @ t) = well_formed t"
  using well_formed_quote_body[OF assms, of "34 # t"]
  by (simp add: QuoteJSONString_def well_formed_ascii del: well_formed.simps)

lemma well_formed_joined:
  assumes "\<forall>s \<in> set xs. \<forall>u \<in> set s. u < 65536"
  shows "well_formed (join_str [44] (map QuoteJSONString xs) @ t) = well_formed t"
  using assms
proof (induction xs rule: induct_list012)
  case 1
  then show ?case by simp
next
  case (2 x)
  then show ?case by (simp add: well_formed_quoted)
next
  case (3 x y zs)
  then have x: "\<forall>u \<in> set x. u < 65536" and r: "\<forall>s \<in> set (y # zs). \<forall>u \<in> set s. u < 65536"
    by simp_all
  from 3(2)[OF r] show ?case
    using well_formed_quoted[OF x, of "44 # join_str [44] (map QuoteJSONString (y # zs)) @ t"]
    by (simp add: well_formed_ascii del: well_formed.simps)
qed

lemma well_formed_stringified:
  assumes "\<forall>s \<in> set (meta_suggestions m). \<forall>u \<in> set s. u < 65536"
    and "\<forall>u \<in> set (meta_timestamp m). u < 65536"
    and "\<forall>u \<in> set (meta_category m). u < 65536"
  shows "well_formed (JSON_stringify_metadata m)"
proof -
  have k: "\<forall>u \<in> set (lit ''suggestions''). u < 65536" "\<forall>u \<in> set (lit ''done''). u < 65536"
    "\<forall>u \<in> set (lit ''timestamp''). u < 65536" "\<forall>u \<in> set (lit ''category''). u < 65536"
    by (simp_all add: lit_def)
  have b: "well_formed ((if meta_done m then lit ''true'' else lit ''false'') @ t) = well_formed t" for t
    by (simp add: lit_def well_formed_ascii del: well_formed.simps)
  show ?thesis
    unfolding JSON_stringify_metadata_shape
    by (simp add: well_formed_ascii well_formed_quoted[OF k(1)] well_formed_quoted[OF k(2)]
        well_formed_quoted[OF k(3)] well_formed_quoted[OF k(4)] well_formed_quoted[OF assms(2)]
        well_formed_quoted[OF assms(3)] well_formed_joined[OF assms(1)] b
        del: well_formed.simps(2,3))
qed

lemma split_str_units:
  assumes "p \<in> set (split_str sep s)"
  shows "set p \<subseteq> set s"
  using assms
proof (induction sep s rule: split_str.induct)
  case (1 sep s)
  show ?case
  proof (cases "sep = []")
    case True
    with 1(2) show ?thesis by (subst (asm) split_str.simps) auto
  next
    case False
    show ?thesis
    proof (cases "index_of sep s")
      case None
      with False 1(2) show ?thesis by (subst (asm) split_str.simps) simp
    next
      case (Some i)
      from 1(2) have "p = take i s \<or> p \<in> set (split_str sep (drop (i + length sep) s))"
        by (subst (asm) split_str.simps) (simp add: False Some)
      then show ?thesis
      proof
        assume "p = take i s"
        then show ?thesis by (auto dest: in_set_takeD)
      next
        assume "p \<in> set (split_str sep (drop (i + length sep) s))"
        from 1(1)[OF False Some this] show ?thesis by (auto dest: in_set_dropD)
      qed
    qed
  qed
qed

lemma lazy_capture_units: "set (lazy_capture s) \<subseteq> set s"
  by (induction s rule: lazy_capture.induct) auto

lemma match_heading_at_units:
  assumes "match_heading_at s = Some r"
  shows "set r \<subseteq> set s"
proof -
  have m: "match_lit_ci pat x = Some y \<Longrightarrow> set y \<subseteq> set x" for pat x y
    by (auto simp: match_lit_ci_def split: if_splits dest: in_set_dropD)
  from assms show ?thesis
    unfolding match_heading_at_def
    by (auto split: option.splits dest!: m)
qed

lemma suggestionPattern_match_units:
  assumes "suggestionPattern_match s = Some g"
  shows "set g \<subseteq> set s"
  using assms
proof (induction s rule: suggestionPattern_match.induct)
  case 1
  then show ?case by simp
next
  case (2 c cs)
  show ?case
  proof (cases "match_heading_at (c # cs)")
    case None
    with 2 show ?thesis by auto
  next
    case (Some r)
    with 2(2) have "g = lazy_capture r" by simp
    with match_heading_at_units[OF Some] lazy_capture_units[of r] show ?thesis by blast
  qed
qed

lemma trim_units: "set (trim s) \<subseteq> set s"
  by (auto simp: trim_def dest!: set_dropWhileD)

lemma strip_bullet_units: "set (strip_bullet s) \<subseteq> set s"
  by (auto simp: strip_bullet_def split: list.splits dest: set_dropWhileD)

lemma extract_suggestions_units:
  assumes "x \<in> set (extract_suggestions t)"
  shows "set x \<subseteq> set t"
proof -
  obtain g where g: "suggestionPattern_match t = Some g"
    and x: "x \<in> set (candidate_lines g)"
  proof (cases "suggestionPattern_match t")
    case None
    with assms show ?thesis by (simp add: extract_suggestions_def)
  next
    case (Some g)
    with assms have "x \<in> set (candidate_lines g)"
      by (simp add: extract_suggestions_def split: if_splits)
    with Some that show ?thesis by blast
  qed
  from x obtain ln where ln: "ln \<in> set (split_str [10] g)" and xl: "x = strip_bullet (trim ln)"
    by (auto simp: candidate_lines_def)
  have "set x \<subseteq> set ln" unfolding xl using strip_bullet_units trim_units by blast
  with split_str_units[OF ln] suggestionPattern_match_units[OF g] show ?thesis by blast
qed

lemma relay_completed:
  "start now cat (map Text cs) \<lparr>queue = [], cstate = Readable\<rparr> =
     \<lparr>queue = map TextEncoder_encode cs @
        [TextEncoder_encode
           (SENTINEL @ JSON_stringify_metadata (relay_metadata now cat (concat cs)))],
      cstate = Closed\<rparr>"
proof -
  let ?st0 = "\<lparr>fullText = [], chunkCount = 0, ctrl = \<lparr>queue = [], cstate = Readable\<rparr>\<rparr>"
  have p: "pump (map Text cs) ?st0 =
      (None, \<lparr>fullText = concat cs, chunkCount = length cs,
              ctrl = \<lparr>queue = map TextEncoder_encode cs, cstate = Readable\<rparr>\<rparr>)"
    using pump_texts[of ?st0 cs] by simp
  show ?thesis
    by (simp add: start_def p enqueue_def close_controller_def)
qed

lemma relay_metadata_units:
  assumes "\<forall>u \<in> set (concat cs) \<union> set now \<union> (case cat of None \<Rightarrow> {} | Some v \<Rightarrow> set v). u < 65536"
  shows "well_formed (SENTINEL @ JSON_stringify_metadata (relay_metadata now cat (concat cs)))"
proof -
  let ?m = "relay_metadata now cat (concat cs)"
  have s: "\<forall>s \<in> set (meta_suggestions ?m). \<forall>u \<in> set s. u < 65536"
    using assms extract_suggestions_units[of _ "concat cs"]
    unfolding relay_metadata_def by (simp add: subset_iff)
  have t: "\<forall>u \<in> set (meta_timestamp ?m). u < 65536"
    using assms by (simp add: relay_metadata_def)
  have c: "\<forall>u \<in> set (meta_category ?m). u < 65536"
    using assms
    by (auto simp: relay_metadata_def category_or_general_def lit_def split: option.splits)
  have "well_formed SENTINEL"
    by (rule well_formed_plain) (simp add: SENTINEL_def lit_def)
  then show ?thesis
    using well_formed_stringified[OF s t c] by (rule well_formed_append)
qed

lemma answer_suggestions:
  "extract_suggestions (concat answer_chunks) = [lit ''How long does the flu last?'']"
  by (simp add: answer_chunks_def extract_suggestions_def match_heading_at_def match_lit_ci_def
      starts_with_ci_def upper_ascii_def candidate_lines_def trim_def strip_bullet_def
      is_space_def lit_def split_str.simps)

lemma answer_json:
  \<open>JSON_stringify_metadata
      (relay_metadata (lit ''2025-01-01T00:00:00.000Z'') None (concat answer_chunks)) =
    lit ''{"suggestions":["How long does the flu last?"],"done":true,"timestamp":"2025-01-01T00:00:00.000Z","category":"general"}''\<close>
  by (simp add: JSON_stringify_metadata_def relay_metadata_def answer_suggestions
      category_or_general_def QuoteJSONString_def quote_unit_def is_high_surrogate_def
      is_low_surrogate_def lit_def)

lemma relay_upstream_error:
  "start now cat (map Text cs @ Raise # rest) \<lparr>queue = [], cstate = Readable\<rparr> =
     \<lparr>queue = map TextEncoder_encode cs, cstate = Errored\<rparr>"
proof -
  let ?st0 = "\<lparr>fullText = [], chunkCount = 0, ctrl = \<lparr>queue = [], cstate = Readable\<rparr>\<rparr>"
  have "pump (map Text cs @ Raise # rest) ?st0 =
      (Some UpstreamFailure, \<lparr>fullText = concat cs, chunkCount = length cs,
              ctrl = \<lparr>queue = map TextEncoder_encode cs, cstate = Readable\<rparr>\<rparr>)"
    using pump_raise[of ?st0 cs rest] by simp
  then show ?thesis
    by (simp add: start_def error_controller_def)
qed


section \<open>The claims\<close>

text \<open>
  Claim C1. After the chunks \<open>## Flu\<close>, \<open>**Fever**\<close> (each with its line feed), the
  sentinel and the JSON, the finalized content is said to be the two lines and the
  suggestions the one question. The handler splits at \<open>___METADATA___\<close>, so the line feed
  that the relay puts before the marker stays in the content; and it leaves the loop at
  the chunk that completes the marker, where the text after the marker is only a line
  feed: the JSON of the next chunk is never read and the suggestions stay empty.
\<close>

theorem sentinel_scenario_counterexample:
  \<open>message (last (messages (handleSubmit (scenario_env scenario_chunks) scenario_state)))
     \<noteq> lit ''## Flu\<newline>**Fever**\<newline>'' \<and>
   suggestions (handleSubmit (scenario_env scenario_chunks) scenario_state)
     \<noteq> JArr [JStr (lit ''How long does it last?'')]\<close>
  by (simp add: scenario_result lit_def)

text \<open>
  Claim C1, as amended. Let the chunk that completes the marker also bring the whole
  JSON, as the relay sends it, so that the text read so far is a content, the sentinel
  and a well-formed JSON text, neither the content nor the JSON containing
  \<open>___METADATA___\<close>. Then the assistant message is finalized with the content followed
  by the line feed that precedes the marker, the text after the marker parses to the
  value of the JSON, and the suggestions are its \<open>suggestions\<close> member when that is
  truthy (empty otherwise). The witness is the scenario with the sentinel and the JSON in
  one chunk.
\<close>

theorem sentinel_split:
  assumes "trim (inputMessage st) \<noteq> []" and "\<not> isLoading st"
    and "response env = Response True (map (\<lambda>(c, t). Chunk c t) cs @ Chunk c now # rest)"
    and "\<not> includes_str (concat (map fst cs)) MARKER"
    and "concat (map fst cs) @ c = doc @ SENTINEL @ js"
    and "\<not> includes_str doc MARKER" and "\<not> includes_str js MARKER"
    and "JSON_parse js = Some md"
  shows "messages (handleSubmit env st) =
           map (finalize_message (aiMessageId env) (doc @ [10])) (messages st) @
           [userMessage env (trim (inputMessage st)),
            (aiPlaceholder env)\<lparr>message := doc @ [10], streaming := Some False\<rparr>] \<and>
         JSON_parse (10 # js) = Some md \<and>
         suggestions (handleSubmit env st) =
           (case get_suggestions md of
              Inr (Some v) \<Rightarrow> if json_truthy v then v else JArr []
            | _ \<Rightarrow> JArr []) \<and>
         streamingMessage (handleSubmit env st) = [] \<and>
         \<not> isLoading (handleSubmit env st) \<and>
         conversationHistory (handleSubmit env st) =
           slice_neg 10 (conversationHistory st @
             [userTurn (trim (inputMessage st)), assistantTurn (doc @ [10])])"
proof -
  note sp = sentinel_split_parts[OF assms(5,6,7)]
  have p: "JSON_parse (10 # js) = Some md"
    using assms(8) by (rule JSON_parse_leading_newline)
  have "suggestions (apply_metadata (Some (10 # js)) (after_submission env st)) =
      (case get_suggestions md of
              Inr (Some v) \<Rightarrow> if json_truthy v then v else JArr []
            | _ \<Rightarrow> JArr [])"
    by (simp add: apply_metadata_def p after_submission_def split: sum.splits option.splits)
  then show ?thesis
    unfolding handleSubmit_marker[OF assms(1-4) sp(1) sp(2)] using p by simp
qed

theorem sentinel_split_witness:
  \<open>messages (handleSubmit (scenario_env relayed_chunks) scenario_state) =
     [userMessage (scenario_env relayed_chunks) (lit ''What are the symptoms of flu?''),
      (aiPlaceholder (scenario_env relayed_chunks))
        \<lparr>message := lit ''## Flu\<newline>**Fever**\<newline>\<newline>'', streaming := Some False\<rparr>] \<and>
   suggestions (handleSubmit (scenario_env relayed_chunks) scenario_state) =
     JArr [JStr (lit ''How long does it last?'')]\<close>
proof -
  let ?env = "scenario_env relayed_chunks"
  let ?cs = "[(lit ''## Flu\<newline>'', 1010::nat), (lit ''**Fever**\<newline>'', 1020)]"
  let ?js = \<open>lit ''{"suggestions":["How long does it last?"],"done":true}''\<close>
  let ?c = \<open>lit ''\<newline>___METADATA___\<newline>{"suggestions":["How long does it last?"],"done":true}''\<close>
  let ?doc = "lit ''## Flu\<newline>**Fever**\<newline>''"
  have t: "trim (inputMessage scenario_state) = lit ''What are the symptoms of flu?''"
    by (simp add: scenario_state_def init_state_def trim_def is_space_def lit_def)
  have a1: "trim (inputMessage scenario_state) \<noteq> []" unfolding t by (simp add: lit_def)
  have a2: "\<not> isLoading scenario_state" by (simp add: scenario_state_def init_state_def)
  have a3: "response ?env = Response True (map (\<lambda>(c, t). Chunk c t) ?cs @ Chunk ?c 1030 # [])"
    by (simp add: scenario_env_def relayed_chunks_def)
  have a4: "\<not> includes_str (concat (map fst ?cs)) MARKER"
    by (simp add: includes_str_def MARKER_def lit_def)
  have a5: "concat (map fst ?cs) @ ?c = ?doc @ SENTINEL @ ?js"
    by (simp add: SENTINEL_def lit_def)
  have a6: "\<not> includes_str ?doc MARKER"
    by (simp add: includes_str_def MARKER_def lit_def)
  have a7: "\<not> includes_str ?js MARKER"
    by (simp add: includes_str_def MARKER_def lit_def)
  note s = sentinel_split[OF a1 a2 a3 a4 a5 a6 a7 scenario_json]
  have g: "get_suggestions (JObj [(lit ''suggestions'', JArr [JStr (lit ''How long does it last?'')]),
                 (lit ''done'', JBool True)]) = Inr (Some (JArr [JStr (lit ''How long does it last?'')]))"
    by (simp add: get_suggestions_def lit_def)
  have m0: "messages scenario_state = []" by (simp add: scenario_state_def init_state_def)
  have d: "?doc @ [10] = lit ''## Flu\<newline>**Fever**\<newline>\<newline>''" by (simp add: lit_def)
  from s show ?thesis unfolding g t m0 d by simp
qed

text \<open>
  Claim C2. When the upstream completes normally, the relay has enqueued the UTF-8 bytes
  of every chunk, in order, and then one final segment: the bytes of the sentinel (a line
  feed, \<open>___METADATA___\<close>, a line feed) followed by the serialization of the metadata.
  The serialization is the text of an object with the members \<open>suggestions\<close>, \<open>done\<close>,
  \<open>timestamp\<close> and \<open>category\<close>, in this order, and \<open>JSON.parse\<close> reads it back as the
  suggestions computed from the concatenated text, \<open>true\<close>, the time stamp and the
  category (\<open>general\<close> when it is absent or empty). Then the stream is closed, and an
  enqueue after that is refused. The bytes of a well-formed chunk decode to the chunk,
  and those of the final segment to the sentinel and the serialization, the code units
  of the strings being below \<open>2^16\<close>. A surrogate without its partner in a chunk is
  forwarded as \<open>U+FFFD\<close> (\<open>encode_lone_surrogate\<close>), and a failing upstream leaves the
  stream errored after the chunks it gave (\<open>relay_upstream_error\<close>).
\<close>

theorem relay_finalization:
  \<open>start now cat (map Text cs) \<lparr>queue = [], cstate = Readable\<rparr> =
     \<lparr>queue = map TextEncoder_encode cs @
        [TextEncoder_encode
           (lit ''\<newline>___METADATA___\<newline>'' @
            JSON_stringify_metadata (relay_metadata now cat (concat cs)))],
      cstate = Closed\<rparr> \<and>
   enqueue (start now cat (map Text cs) \<lparr>queue = [], cstate = Readable\<rparr>) x = Inl TypeError \<and>
   JSON_stringify_metadata (relay_metadata now cat (concat cs)) =
     lit ''{"suggestions":['' @
     join_str (lit '','') (map QuoteJSONString (extract_suggestions (concat cs))) @
     lit ''],"done":true,"timestamp":'' @ QuoteJSONString now @
     lit '',"category":'' @
     QuoteJSONString
       (case cat of None \<Rightarrow> lit ''general'' | Some v \<Rightarrow> if v = [] then lit ''general'' else v) @
     lit ''}'' \<and>
   JSON_parse (JSON_stringify_metadata (relay_metadata now cat (concat cs))) =
     Some (JObj [(lit ''suggestions'', JArr (map JStr (extract_suggestions (concat cs)))),
                 (lit ''done'', JBool True),
                 (lit ''timestamp'', JStr now),
                 (lit ''category'',
                  JStr (case cat of None \<Rightarrow> lit ''general''
                        | Some v \<Rightarrow> if v = [] then lit ''general'' else v))]) \<and>
   (\<forall>c \<in> set cs. well_formed c \<longrightarrow> decoded_text (TextEncoder_encode c) = Some c) \<and>
   ((\<forall>u \<in> set (concat cs) \<union> set now \<union> (case cat of None \<Rightarrow> {} | Some v \<Rightarrow> set v). u < 65536) \<longrightarrow>
      decoded_text
        (TextEncoder_encode
           (lit ''\<newline>___METADATA___\<newline>'' @
            JSON_stringify_metadata (relay_metadata now cat (concat cs)))) =
      Some (lit ''\<newline>___METADATA___\<newline>'' @
            JSON_stringify_metadata (relay_metadata now cat (concat cs))))\<close>
proof -
  let ?J = "JSON_stringify_metadata (relay_metadata now cat (concat cs))"
  have s: "start now cat (map Text cs) \<lparr>queue = [], cstate = Readable\<rparr> =
     \<lparr>queue = map TextEncoder_encode cs @
        [TextEncoder_encode (lit ''\<newline>___METADATA___\<newline>'' @ ?J)],
      cstate = Closed\<rparr>"
    unfolding relay_completed by (simp add: SENTINEL_def)
  have e: "enqueue (start now cat (map Text cs) \<lparr>queue = [], cstate = Readable\<rparr>) x = Inl TypeError"
    unfolding s by (simp add: enqueue_def)
  have j: \<open>?J =
     lit ''{"suggestions":['' @
     join_str (lit '','') (map QuoteJSONString (extract_suggestions (concat cs))) @
     lit ''],"done":true,"timestamp":'' @ QuoteJSONString now @
     lit '',"category":'' @
     QuoteJSONString
       (case cat of None \<Rightarrow> lit ''general'' | Some v \<Rightarrow> if v = [] then lit ''general'' else v) @
     lit ''}''\<close>
    by (simp add: JSON_stringify_metadata_def relay_metadata_def category_or_general_def lit_def)
  have p: "JSON_parse ?J =
     Some (JObj [(lit ''suggestions'', JArr (map JStr (extract_suggestions (concat cs)))),
                 (lit ''done'', JBool True),
                 (lit ''timestamp'', JStr now),
                 (lit ''category'',
                  JStr (case cat of None \<Rightarrow> lit ''general''
                        | Some v \<Rightarrow> if v = [] then lit ''general'' else v))])"
    unfolding JSON_parse_stringify_metadata
    by (simp add: relay_metadata_def category_or_general_def)
  have d: "\<forall>c \<in> set cs. well_formed c \<longrightarrow> decoded_text (TextEncoder_encode c) = Some c"
    by (simp add: decoded_encode)
  have f: "decoded_text (TextEncoder_encode (lit ''\<newline>___METADATA___\<newline>'' @ ?J)) =
      Some (lit ''\<newline>___METADATA___\<newline>'' @ ?J)"
    if "\<forall>u \<in> set (concat cs) \<union> set now \<union> (case cat of None \<Rightarrow> {} | Some v \<Rightarrow> set v). u < 65536"
    using decoded_encode[OF relay_metadata_units[OF that]] by (simp add: SENTINEL_def)
  from s e j p d f show ?thesis by blast
qed

theorem relay_finalization_witness:
  \<open>start (lit ''2025-01-01T00:00:00.000Z'') None (map Text answer_chunks)
      \<lparr>queue = [], cstate = Readable\<rparr> =
     \<lparr>queue =
        [lit ''Caf'' @ [195, 169] @ lit '' and rest.\<newline>**Follow-up Ques'',
         lit ''tions:**\<newline>- How long does the flu last?'',
         lit ''\<newline>___METADATA___\<newline>{"suggestions":["How long does the flu last?"],"done":true,"timestamp":"2025-01-01T00:00:00.000Z","category":"general"}''],
      cstate = Closed\<rparr> \<and>
   decoded_text (lit ''Caf'' @ [195, 169] @ lit '' and rest.\<newline>**Follow-up Ques'') =
     Some (lit ''Caf'' @ [233] @ lit '' and rest.\<newline>**Follow-up Ques'') \<and>
   decoded_text (lit ''\<newline>___METADATA___\<newline>{"suggestions":["How long does the flu last?"],"done":true,"timestamp":"2025-01-01T00:00:00.000Z","category":"general"}'') =
     Some (lit ''\<newline>___METADATA___\<newline>{"suggestions":["How long does the flu last?"],"done":true,"timestamp":"2025-01-01T00:00:00.000Z","category":"general"}'') \<and>
   JSON_parse (lit ''{"suggestions":["How long does the flu last?"],"done":true,"timestamp":"2025-01-01T00:00:00.000Z","category":"general"}'') =
     Some (JObj [(lit ''suggestions'', JArr [JStr (lit ''How long does the flu last?'')]),
                 (lit ''done'', JBool True),
                 (lit ''timestamp'', JStr (lit ''2025-01-01T00:00:00.000Z'')),
                 (lit ''category'', JStr (lit ''general''))])\<close>
proof -
  let ?now = "lit ''2025-01-01T00:00:00.000Z''"
  let ?c1 = "lit ''Caf'' @ [233] @ lit '' and rest.\<newline>**Follow-up Ques''"
  let ?c2 = "lit ''tions:**\<newline>- How long does the flu last?''"
  let ?seg = \<open>lit ''\<newline>___METADATA___\<newline>{"suggestions":["How long does the flu last?"],"done":true,"timestamp":"2025-01-01T00:00:00.000Z","category":"general"}''\<close>
  note r = relay_finalization[of ?now None answer_chunks "[]", unfolded answer_json answer_suggestions]
  have e1: "TextEncoder_encode ?c1 = lit ''Caf'' @ [195, 169] @ lit '' and rest.\<newline>**Follow-up Ques''"
    by (simp add: TextEncoder_encode_def utf8_bytes_def is_surrogate_def is_high_surrogate_def
        is_low_surrogate_def lit_def)
  have e2: "TextEncoder_encode ?c2 = ?c2"
    by (rule encode_ascii) (simp add: lit_def)
  have e3: "TextEncoder_encode ?seg = ?seg"
    by (rule encode_ascii) (simp add: lit_def)
  have sg: \<open>lit ''\<newline>___METADATA___\<newline>'' @
      lit ''{"suggestions":["How long does the flu last?"],"done":true,"timestamp":"2025-01-01T00:00:00.000Z","category":"general"}'' = ?seg\<close>
    by (simp add: lit_def)
  have w1: "well_formed ?c1"
    by (rule well_formed_plain) (simp add: lit_def)
  have u: "\<forall>u \<in> set (concat answer_chunks) \<union> set ?now \<union> (case None of None \<Rightarrow> {} | Some v \<Rightarrow> set v).
      u < 65536"
    by (simp add: answer_chunks_def lit_def)
  have c1: "?c1 \<in> set answer_chunks" by (simp add: answer_chunks_def)
  note r1 = conjunct1[OF r, unfolded sg]
  note r4 = conjunct1[OF conjunct2[OF conjunct2[OF conjunct2[OF r]]]]
  note r5 = conjunct1[OF conjunct2[OF conjunct2[OF conjunct2[OF conjunct2[OF r]]]]]
  note r6 = conjunct2[OF conjunct2[OF conjunct2[OF conjunct2[OF conjunct2[OF r]]]], unfolded sg]
  have q: "start ?now None (map Text answer_chunks) \<lparr>queue = [], cstate = Readable\<rparr> =
     \<lparr>queue = [TextEncoder_encode ?c1, TextEncoder_encode ?c2, TextEncoder_encode ?seg],
      cstate = Closed\<rparr>"
    unfolding r1 by (simp add: answer_chunks_def)
  from r5 c1 w1 have d1: "decoded_text (TextEncoder_encode ?c1) = Some ?c1" by blast
  from r6 u have d3: "decoded_text (TextEncoder_encode ?seg) = Some ?seg" by blast
  from r4 have p: \<open>JSON_parse (lit ''{"suggestions":["How long does the flu last?"],"done":true,"timestamp":"2025-01-01T00:00:00.000Z","category":"general"}'') =
     Some (JObj [(lit ''suggestions'', JArr [JStr (lit ''How long does the flu last?'')]),
                 (lit ''done'', JBool True),
                 (lit ''timestamp'', JStr (lit ''2025-01-01T00:00:00.000Z'')),
                 (lit ''category'', JStr (lit ''general''))])\<close>
    by simp
  from q d1 d3 p show ?thesis unfolding e1 e2 e3 by blast
qed

text \<open>
  Claim C3. Among the candidate lines of the follow-up section (trimmed, leading bullet
  removed), a line shorter than 11 or longer than 149 is not a suggestion, and a line of
  length 11 or of length 149 is one: the suggestions are exactly the candidates of
  length 11 to 149.
\<close>

theorem suggestion_length_filter:
  assumes "suggestionPattern_match t = Some g" and "l \<in> set (candidate_lines g)"
  shows "(length l < 11 \<or> length l > 149 \<longrightarrow> l \<notin> set (extract_suggestions t)) \<and>
         (length l = 11 \<or> length l = 149 \<longrightarrow> l \<in> set (extract_suggestions t)) \<and>
         (l \<in> set (extract_suggestions t) \<longleftrightarrow> 11 \<le> length l \<and> length l \<le> 149)"
  using assms by (auto simp: extract_suggestions_filter)

theorem suggestion_length_filter_witness:
  \<open>suggestionPattern_match (lit ''**Follow-up Questions:**\<newline>- 12345678901\<newline>- short line'')
     = Some (lit ''\<newline>- 12345678901\<newline>- short line'') \<and>
   lit ''12345678901'' \<in> set (candidate_lines (lit ''\<newline>- 12345678901\<newline>- short line'')) \<and>
   lit ''short line'' \<in> set (candidate_lines (lit ''\<newline>- 12345678901\<newline>- short line'')) \<and>
   lit ''12345678901'' \<in> set (extract_suggestions
      (lit ''**Follow-up Questions:**\<newline>- 12345678901\<newline>- short line'')) \<and>
   lit ''short line'' \<notin> set (extract_suggestions
      (lit ''**Follow-up Questions:**\<newline>- 12345678901\<newline>- short line''))\<close>
proof -
  let ?t = "lit ''**Follow-up Questions:**\<newline>- 12345678901\<newline>- short line''"
  let ?g = "lit ''\<newline>- 12345678901\<newline>- short line''"
  have m: "suggestionPattern_match ?t = Some ?g"
    by (simp add: match_heading_at_def match_lit_ci_def starts_with_ci_def upper_ascii_def lit_def)
  have c: "candidate_lines ?g = [[], lit ''12345678901'', lit ''short line'']"
    by (simp add: candidate_lines_def trim_def strip_bullet_def is_space_def lit_def split_str.simps)
  have c1: "lit ''12345678901'' \<in> set (candidate_lines ?g)"
    and c2: "lit ''short line'' \<in> set (candidate_lines ?g)"
    unfolding c by simp_all
  have l1: "length (lit ''12345678901'') = 11" and l2: "length (lit ''short line'') < 11"
    by (simp_all add: lit_def)
  from suggestion_length_filter[OF m c1] l1
  have "lit ''12345678901'' \<in> set (extract_suggestions ?t)" by blast
  moreover from suggestion_length_filter[OF m c2] l2
  have "lit ''short line'' \<notin> set (extract_suggestions ?t)" by blast
  ultimately show ?thesis using m c1 c2 by blast
qed

text \<open>
  Claim C4. The suggestions of the metadata object are said to be at most 4. The relay
  sets no such bound: an answer with five questions in its follow-up section gives five
  suggestions.
\<close>

theorem suggestion_count_counterexample:
  "\<not> length (meta_suggestions
        (relay_metadata (lit ''2025-01-01T00:00:00.000Z'') (Some (lit ''general'')) five_questions)) \<le> 4"
  by (simp add: relay_metadata_def five_questions_suggestions)

text \<open>
  Claim C4, as amended. The suggestions of the metadata object that the relay produces
  are an ordered sequence of texts, each of 11 to 149 characters: the candidate lines of
  the follow-up section that have such a length, in the order of the lines (none when
  there is no such section). Their number is at most the number of lines of the section,
  and is not bounded by 4.
\<close>

theorem relay_suggestions_sequence:
  "(\<forall>l \<in> set (meta_suggestions (relay_metadata now cat t)). 11 \<le> length l \<and> length l \<le> 149) \<and>
   (case suggestionPattern_match t of
      None \<Rightarrow> meta_suggestions (relay_metadata now cat t) = []
    | Some g \<Rightarrow>
        meta_suggestions (relay_metadata now cat t) =
          filter (\<lambda>l. 11 \<le> length l \<and> length l \<le> 149) (candidate_lines g) \<and>
        subseq (meta_suggestions (relay_metadata now cat t)) (candidate_lines g) \<and>
        length (meta_suggestions (relay_metadata now cat t)) \<le> length (split_str [10] g))"
proof (cases "suggestionPattern_match t")
  case None
  then show ?thesis by (simp add: relay_metadata_def extract_suggestions_def)
next
  case (Some g)
  have f: "extract_suggestions t = filter (\<lambda>l. 11 \<le> length l \<and> length l \<le> 149) (candidate_lines g)"
    unfolding extract_suggestions_filter[OF Some]
    by (rule filter_cong) auto
  have "length (extract_suggestions t) \<le> length (candidate_lines g)"
    unfolding f by (rule length_filter_le)
  then have "length (extract_suggestions t) \<le> length (split_str [10] g)"
    by (simp add: candidate_lines_def)
  moreover have "subseq (extract_suggestions t) (candidate_lines g)"
    unfolding f by simp
  ultimately show ?thesis using Some f by (simp add: relay_metadata_def)
qed

theorem relay_suggestions_sequence_witness:
  "lit ''What medicine can I take?'' \<in> set (meta_suggestions
      (relay_metadata (lit ''2025-01-01T00:00:00.000Z'') None five_questions)) \<and>
   11 \<le> length (lit ''What medicine can I take?'') \<and>
   length (lit ''What medicine can I take?'') \<le> 149 \<and>
   length (meta_suggestions
      (relay_metadata (lit ''2025-01-01T00:00:00.000Z'') None five_questions)) = 5"
proof -
  let ?m = "relay_metadata (lit ''2025-01-01T00:00:00.000Z'') None five_questions"
  have s: "meta_suggestions ?m =
     [lit ''How long does the flu last?'', lit ''When should I see a doctor?'',
      lit ''Is the flu contagious now?'', lit ''What medicine can I take?'',
      lit ''Can I go to work with flu?'']"
    by (simp add: relay_metadata_def five_questions_suggestions)
  then have mem: "lit ''What medicine can I take?'' \<in> set (meta_suggestions ?m)" by simp
  from relay_suggestions_sequence[of "lit ''2025-01-01T00:00:00.000Z''" None five_questions] mem
  have "11 \<le> length (lit ''What medicine can I take?'') \<and>
        length (lit ''What medicine can I take?'') \<le> 149" by blast
  with mem s show ?thesis by simp
qed

text \<open>
  Claim C5. The text after the sentinel is said to yield no suggestions whenever it is
  not well-formed JSON. The handler splits at every \<open>___METADATA___\<close> and parses only
  the piece after the first one: where a JSON text is followed by a second marker, what
  comes after the sentinel is rejected by \<open>JSON.parse\<close> as a whole, yet the piece
  parses and its suggestions are set. The finalized content is the text before the marker, with the line
  feed of the sentinel.
\<close>

theorem graceful_metadata_counterexample:
  \<open>JSON_parse (lit ''{"suggestions":["Injected question?"]}___METADATA___'') = None \<and>
   injected_chunks =
     [Chunk (lit ''Rest.'') 1010,
      Chunk (lit ''\<newline>___METADATA___\<newline>'' @
             lit ''{"suggestions":["Injected question?"]}___METADATA___'') 1020] \<and>
   suggestions (handleSubmit (scenario_env injected_chunks) scenario_state) =
     JArr [JStr (lit ''Injected question?'')] \<and>
   messages (handleSubmit (scenario_env injected_chunks) scenario_state) =
     [userMessage (scenario_env injected_chunks) (lit ''What are the symptoms of flu?''),
      (aiPlaceholder (scenario_env injected_chunks))
        \<lparr>message := lit ''Rest.\<newline>'', streaming := Some False\<rparr>]\<close>
proof -
  let ?env = "scenario_env injected_chunks"
  let ?cs = "[(lit ''Rest.'', 1010::nat)]"
  let ?c = \<open>lit ''\<newline>___METADATA___\<newline>{"suggestions":["Injected question?"]}___METADATA___''\<close>
  let ?js = \<open>lit ''{"suggestions":["Injected question?"]}''\<close>
  have t: "trim (inputMessage scenario_state) = lit ''What are the symptoms of flu?''"
    by (simp add: scenario_state_def init_state_def trim_def is_space_def lit_def)
  have a1: "trim (inputMessage scenario_state) \<noteq> []" unfolding t by (simp add: lit_def)
  have a2: "\<not> isLoading scenario_state" by (simp add: scenario_state_def init_state_def)
  have a3: "response ?env = Response True (map (\<lambda>(c, t). Chunk c t) ?cs @ Chunk ?c 1020 # [])"
    by (simp add: scenario_env_def injected_chunks_def)
  have a4: "\<not> includes_str (concat (map fst ?cs)) MARKER"
    by (simp add: includes_str_def MARKER_def lit_def)
  have a5: "index_of MARKER (concat (map fst ?cs) @ ?c) = Some 6"
    by (simp add: MARKER_def lit_def)
  have a6: "split_str MARKER (drop (6 + length MARKER) (concat (map fst ?cs) @ ?c)) = (10 # ?js) # [] # []"
    by (simp add: MARKER_def lit_def split_str.simps)
  have tk: "take 6 (concat (map fst ?cs) @ ?c) = lit ''Rest.\<newline>''"
    by (simp add: lit_def)
  have m0: "messages scenario_state = []" by (simp add: scenario_state_def init_state_def)
  have sp: "split_str MARKER (concat (map fst ?cs) @ ?c) = take 6 (concat (map fst ?cs) @ ?c) # (10 # ?js) # [] # []"
    and inc: "includes_str (concat (map fst ?cs) @ ?c) MARKER"
    using split_at_first[OF a5 a6] by simp_all
  have p: "JSON_parse (10 # ?js) = Some (JObj [(lit ''suggestions'', JArr [JStr (lit ''Injected question?'')])])"
    by (rule JSON_parse_leading_newline[OF injected_json])
  have g: "get_suggestions (JObj [(lit ''suggestions'', JArr [JStr (lit ''Injected question?'')])]) =
      Inr (Some (JArr [JStr (lit ''Injected question?'')]))"
    by (simp add: get_suggestions_def)
  have s: "suggestions (apply_metadata (Some (10 # ?js)) (after_submission ?env scenario_state)) =
      JArr [JStr (lit ''Injected question?'')]"
    unfolding apply_metadata_suggestions[OF p g, simplified] by simp
  have e: "injected_chunks =
     [Chunk (lit ''Rest.'') 1010,
      Chunk (lit ''\<newline>___METADATA___\<newline>'' @
             lit ''{\"suggestions\":[\"Injected question?\"]}___METADATA___'') 1020]"
    by (simp add: injected_chunks_def lit_def)
  show ?thesis
    unfolding handleSubmit_marker[OF a1 a2 a3 a4 inc sp] tk t m0 s
    using injected_tail_rejected e by simp
qed

text \<open>
  Claim C5, as amended. Let the marker be first complete at some chunk, at offset \<open>i\<close> of
  the text read so far, and let the text between it and the next marker (or the end of
  the text read so far, if there is no other) be rejected by \<open>JSON.parse\<close>. Then the
  message is finalized with the text before the marker (after a sentinel, the content
  and a line feed), the suggestions are empty, the handler ends normally (not loading,
  streaming text cleared, assistant turn recorded) and the only new messages are the
  user's and the finalized one: no error message. The witness is a content, the sentinel
  and a text that is not JSON.
\<close>

theorem graceful_metadata_failure:
  assumes "trim (inputMessage st) \<noteq> []" and "\<not> isLoading st"
    and "response env = Response True (map (\<lambda>(c, t). Chunk c t) cs @ Chunk c now # rest)"
    and "\<not> includes_str (concat (map fst cs)) MARKER"
    and "index_of MARKER (concat (map fst cs) @ c) = Some i"
    and "split_str MARKER (drop (i + length MARKER) (concat (map fst cs) @ c)) = mp # further"
    and "JSON_parse mp = None"
  shows "messages (handleSubmit env st) =
           map (finalize_message (aiMessageId env) (take i (concat (map fst cs) @ c))) (messages st) @
           [userMessage env (trim (inputMessage st)),
            (aiPlaceholder env)\<lparr>message := take i (concat (map fst cs) @ c),
                                 streaming := Some False\<rparr>] \<and>
         suggestions (handleSubmit env st) = JArr [] \<and>
         streamingMessage (handleSubmit env st) = [] \<and>
         \<not> isLoading (handleSubmit env st) \<and>
         conversationHistory (handleSubmit env st) =
           slice_neg 10 (conversationHistory st @
             [userTurn (trim (inputMessage st)), assistantTurn (take i (concat (map fst cs) @ c))])"
proof -
  note sp = split_at_first[OF assms(5,6)]
  have "suggestions (apply_metadata (Some mp) (after_submission env st)) = JArr []"
    using assms(7) by (simp add: apply_metadata_parse_error after_submission_def)
  then show ?thesis
    unfolding handleSubmit_marker[OF assms(1-4) sp(2) sp(1)] by simp
qed

theorem graceful_metadata_failure_witness:
  "JSON_parse (lit ''\<newline>{oops'') = None \<and>
   bad_json_chunks =
     [Chunk (lit ''Rest.'') 1010, Chunk (lit ''\<newline>___METADATA___\<newline>'' @ lit ''{oops'') 1020] \<and>
   messages (handleSubmit (scenario_env bad_json_chunks) scenario_state) =
     [userMessage (scenario_env bad_json_chunks) (lit ''What are the symptoms of flu?''),
      (aiPlaceholder (scenario_env bad_json_chunks))
        \<lparr>message := lit ''Rest.\<newline>'', streaming := Some False\<rparr>] \<and>
   suggestions (handleSubmit (scenario_env bad_json_chunks) scenario_state) = JArr [] \<and>
   streamingMessage (handleSubmit (scenario_env bad_json_chunks) scenario_state) = [] \<and>
   \<not> isLoading (handleSubmit (scenario_env bad_json_chunks) scenario_state) \<and>
   conversationHistory (handleSubmit (scenario_env bad_json_chunks) scenario_state) =
     [userTurn (lit ''What are the symptoms of flu?''), assistantTurn (lit ''Rest.\<newline>'')]"
proof -
  let ?env = "scenario_env bad_json_chunks"
  let ?cs = "[(lit ''Rest.'', 1010::nat)]"
  let ?c = "lit ''\<newline>___METADATA___\<newline>{oops''"
  have t: "trim (inputMessage scenario_state) = lit ''What are the symptoms of flu?''"
    by (simp add: scenario_state_def init_state_def trim_def is_space_def lit_def)
  have a1: "trim (inputMessage scenario_state) \<noteq> []" unfolding t by (simp add: lit_def)
  have a2: "\<not> isLoading scenario_state" by (simp add: scenario_state_def init_state_def)
  have a3: "response ?env = Response True (map (\<lambda>(c, t). Chunk c t) ?cs @ Chunk ?c 1020 # [])"
    by (simp add: scenario_env_def bad_json_chunks_def)
  have a4: "\<not> includes_str (concat (map fst ?cs)) MARKER"
    by (simp add: includes_str_def MARKER_def lit_def)
  have a5: "index_of MARKER (concat (map fst ?cs) @ ?c) = Some 6"
    by (simp add: MARKER_def lit_def)
  have a6: "split_str MARKER (drop (6 + length MARKER) (concat (map fst ?cs) @ ?c)) =
      lit ''\<newline>{oops'' # []"
    by (simp add: MARKER_def lit_def split_str.simps)
  have a7: "JSON_parse (lit ''\<newline>{oops'') = None"
    by (simp add: JSON_parse_def skip_ws_def json_ws_def lit_def)
  note g = graceful_metadata_failure[OF a1 a2 a3 a4 a5 a6 a7]
  have tk: "take 6 (concat (map fst ?cs) @ ?c) = lit ''Rest.\<newline>''"
    by (simp add: lit_def)
  have m0: "messages scenario_state = []" "conversationHistory scenario_state = []"
    by (simp_all add: scenario_state_def init_state_def)
  have e: "bad_json_chunks =
     [Chunk (lit ''Rest.'') 1010, Chunk (lit ''\<newline>___METADATA___\<newline>'' @ lit ''{oops'') 1020]"
    by (simp add: bad_json_chunks_def lit_def)
  from g a7 e show ?thesis unfolding tk t m0 by (simp add: slice_neg_def)
qed

text \<open>
  Claim C6. After a cancellation the history is said to be the one before the submission
  with the user turn appended, and the state of the turn to be discarded. The history is
  cut to its last ten turns at submission: after five answered questions it has ten
  turns, and a cancelled sixth submission drops the oldest of them. The placeholder of
  the assistant message stays in the messages, still streaming, and the text shown at
  the last update of the display stays in \<open>streamingMessage\<close>.
\<close>

theorem cancellation_counterexample:
  "conversationHistory busy_state = flu_turns @ flu_turns @ flu_turns @ flu_turns @ flu_turns \<and>
   length (conversationHistory busy_state) = 10 \<and>
   \<not> isLoading busy_state \<and>
   response cancelled_env =
     Response True [Chunk (lit ''## Flu\<newline>'') 1060, Chunk (lit ''**Fever**\<newline>'') 1070,
                    ReadRejected AbortError] \<and>
   conversationHistory (handleSubmit cancelled_env (busy_state\<lparr>inputMessage := lit ''Is it contagious?''\<rparr>)) =
     tl (conversationHistory busy_state) @ [\<lparr>role = RoleUser, content = lit ''Is it contagious?''\<rparr>] \<and>
   conversationHistory (handleSubmit cancelled_env (busy_state\<lparr>inputMessage := lit ''Is it contagious?''\<rparr>)) \<noteq>
     conversationHistory busy_state @ [\<lparr>role = RoleUser, content = lit ''Is it contagious?''\<rparr>] \<and>
   length (conversationHistory
      (handleSubmit cancelled_env (busy_state\<lparr>inputMessage := lit ''Is it contagious?''\<rparr>))) = 10 \<and>
   streamingMessage (handleSubmit cancelled_env (busy_state\<lparr>inputMessage := lit ''Is it contagious?''\<rparr>)) =
     lit ''## Flu\<newline>'' \<and>
   last (messages (handleSubmit cancelled_env (busy_state\<lparr>inputMessage := lit ''Is it contagious?''\<rparr>))) =
     \<lparr>msg_id = lit ''ai-1005'', message = [], sender = SenderAi,
      timestamp = lit ''2025-01-01T00:00:01.005Z'', streaming = Some True, status = None\<rparr>"
proof -
  let ?st = "busy_state\<lparr>inputMessage := lit ''Is it contagious?''\<rparr>"
  let ?cs = "[(lit ''## Flu\<newline>'', 1060::nat), (lit ''**Fever**\<newline>'', 1070)]"
  have t: "trim (inputMessage ?st) = lit ''Is it contagious?''"
    by (simp add: trim_def is_space_def lit_def)
  have a1: "trim (inputMessage ?st) \<noteq> []" unfolding t by (simp add: lit_def)
  have a2: "\<not> isLoading ?st" using busy_state_history by simp
  have a3: "response cancelled_env =
      Response True (map (\<lambda>(c, t). Chunk c t) ?cs @ ReadRejected AbortError # [])"
    by (simp add: cancelled_env_def scenario_env_def)
  have a4: "\<not> includes_str (concat (map fst ?cs)) MARKER"
    by (simp add: includes_str_def MARKER_def lit_def)
  note h = handleSubmit_read_aborted[OF a1 a2 a3 a4]
  have d: "displayed ?cs (loopStart cancelled_env) (streamingMessage ?st) = lit ''## Flu\<newline>''"
    by (simp add: displayed_def cancelled_env_def scenario_env_def UPDATE_INTERVAL_def)
  have b: "conversationHistory ?st = flu_turns @ flu_turns @ flu_turns @ flu_turns @ flu_turns"
    using busy_state_history by simp
  have ph: "aiPlaceholder cancelled_env =
     \<lparr>msg_id = lit ''ai-1005'', message = [], sender = SenderAi,
      timestamp = lit ''2025-01-01T00:00:01.005Z'', streaming = Some True, status = None\<rparr>"
    by (simp add: aiPlaceholder_def aiMessageId_def cancelled_env_def scenario_env_def String_num_def lit_def
        digits10.simps)
  have r: "response cancelled_env =
     Response True [Chunk (lit ''## Flu\<newline>'') 1060, Chunk (lit ''**Fever**\<newline>'') 1070,
                    ReadRejected AbortError]"
    by (simp add: cancelled_env_def scenario_env_def)
  have c1: "conversationHistory busy_state = flu_turns @ flu_turns @ flu_turns @ flu_turns @ flu_turns"
    and c2: "\<not> isLoading busy_state"
    using busy_state_history by simp_all
  have c3: "length (conversationHistory busy_state) = 10" unfolding c1 by (simp add: flu_turns_def)
  have c4: "conversationHistory (handleSubmit cancelled_env ?st) =
     tl (conversationHistory busy_state) @ [\<lparr>role = RoleUser, content = lit ''Is it contagious?''\<rparr>]"
    unfolding h t c1 by (simp add: b slice_neg_def flu_turns_def userTurn_def)
  have c5: "conversationHistory (handleSubmit cancelled_env ?st) \<noteq>
     conversationHistory busy_state @ [\<lparr>role = RoleUser, content = lit ''Is it contagious?''\<rparr>]"
    unfolding c4 c1 by (simp add: flu_turns_def)
  have c6: "length (conversationHistory (handleSubmit cancelled_env ?st)) = 10"
    unfolding c4 c1 by (simp add: flu_turns_def)
  have c7: "streamingMessage (handleSubmit cancelled_env ?st) = lit ''## Flu\<newline>''"
    unfolding h d by simp
  have c8: "last (messages (handleSubmit cancelled_env ?st)) =
     \<lparr>msg_id = lit ''ai-1005'', message = [], sender = SenderAi,
      timestamp = lit ''2025-01-01T00:00:01.005Z'', streaming = Some True, status = None\<rparr>"
    unfolding h ph[symmetric] by simp
  show ?thesis using c1 c3 c2 r c4 c5 c6 c7 c8 by blast
qed

text \<open>
  Claim C6, as amended. Let an accepted submission be cancelled: \<open>fetch\<close> rejects with an
  \<open>AbortError\<close>, or a read does after the chunks \<open>cs\<close>, before the marker has been seen.
  Then the handler ends in the state of the submission with these changes only: the input
  is cleared, the suggestions are empty, it is not loading, the messages have gained the
  user message and, when the body was being read, the placeholder of the assistant
  message (empty, still streaming, never finalized), the streaming text is what the last
  update of the display showed, and the history is the last ten turns of the earlier
  history with the user turn: the earlier history and the user turn when it had fewer
  than ten turns, and otherwise its last nine turns and the user turn. No error message
  is appended and no assistant turn is recorded.
\<close>

theorem cancellation_silent:
  assumes "trim (inputMessage st) \<noteq> []" and "\<not> isLoading st"
    and "response env = FetchRejected AbortError \<or>
         response env =
           Response True (map (\<lambda>(c, t). Chunk c t) cs @ ReadRejected AbortError # rest) \<and>
         \<not> includes_str (concat (map fst cs)) MARKER"
  shows "handleSubmit env st =
     st\<lparr>inputMessage := [], isLoading := False, suggestions := JArr [],
        messages := messages st @
          \<lparr>msg_id = lit ''user-'' @ String_num (userNow env), message = trim (inputMessage st),
           sender = SenderUser, timestamp = userStamp env, streaming = None, status = None\<rparr> #
          (if response env = FetchRejected AbortError then []
           else [\<lparr>msg_id = lit ''ai-'' @ String_num (aiNow env), message = [], sender = SenderAi,
                  timestamp = aiStamp env, streaming = Some True, status = None\<rparr>]),
        streamingMessage :=
          (if response env = FetchRejected AbortError then streamingMessage st
           else displayed cs (loopStart env) (streamingMessage st)),
        conversationHistory :=
          slice_neg 10 (conversationHistory st @
            [\<lparr>role = RoleUser, content = trim (inputMessage st)\<rparr>])\<rparr> \<and>
     (length (conversationHistory st) < 10 \<longrightarrow>
        conversationHistory (handleSubmit env st) =
          conversationHistory st @ [\<lparr>role = RoleUser, content = trim (inputMessage st)\<rparr>]) \<and>
     (10 \<le> length (conversationHistory st) \<longrightarrow>
        conversationHistory (handleSubmit env st) =
          drop (length (conversationHistory st) - 9) (conversationHistory st) @
          [\<lparr>role = RoleUser, content = trim (inputMessage st)\<rparr>])"
proof -
  let ?u = "\<lparr>role = RoleUser, content = trim (inputMessage st)\<rparr>"
  have short: "length (conversationHistory st) < 10 \<Longrightarrow>
      slice_neg 10 (conversationHistory st @ [?u]) = conversationHistory st @ [?u]"
    by (simp add: slice_neg_short)
  have long: "10 \<le> length (conversationHistory st) \<Longrightarrow>
      slice_neg 10 (conversationHistory st @ [?u]) =
        drop (length (conversationHistory st) - 9) (conversationHistory st) @ [?u]"
    by (simp add: slice_neg_def)
  from assms(3) show ?thesis
  proof
    assume fr: "response env = FetchRejected AbortError"
    show ?thesis
      unfolding handleSubmit_fetch_aborted[OF assms(1,2) fr]
      using short long by (simp add: fr userMessage_def userTurn_def)
  next
    assume rd: "response env =
           Response True (map (\<lambda>(c, t). Chunk c t) cs @ ReadRejected AbortError # rest) \<and>
         \<not> includes_str (concat (map fst cs)) MARKER"
    show ?thesis
      unfolding handleSubmit_read_aborted[OF assms(1,2) conjunct1[OF rd] conjunct2[OF rd]]
      using short long
      by (simp add: conjunct1[OF rd] userMessage_def userTurn_def aiPlaceholder_def aiMessageId_def)
  qed
qed

theorem cancellation_silent_witness:
  "trim (inputMessage scenario_state) \<noteq> [] \<and> \<not> isLoading scenario_state \<and>
   response cancelled_env =
     Response True [Chunk (lit ''## Flu\<newline>'') 1060, Chunk (lit ''**Fever**\<newline>'') 1070,
                    ReadRejected AbortError] \<and>
   handleSubmit cancelled_env scenario_state =
     \<lparr>messages =
        [\<lparr>msg_id = lit ''user-1000'', message = lit ''What are the symptoms of flu?'',
          sender = SenderUser, timestamp = lit ''2025-01-01T00:00:01.000Z'', streaming = None,
          status = None\<rparr>,
         \<lparr>msg_id = lit ''ai-1005'', message = [], sender = SenderAi,
          timestamp = lit ''2025-01-01T00:00:01.005Z'', streaming = Some True, status = None\<rparr>],
      inputMessage = [], isLoading = False, suggestions = JArr [],
      streamingMessage = lit ''## Flu\<newline>'',
      conversationHistory = [\<lparr>role = RoleUser, content = lit ''What are the symptoms of flu?''\<rparr>]\<rparr>"
proof -
  let ?cs = "[(lit ''## Flu\<newline>'', 1060::nat), (lit ''**Fever**\<newline>'', 1070)]"
  have t: "trim (inputMessage scenario_state) = lit ''What are the symptoms of flu?''"
    by (simp add: scenario_state_def init_state_def trim_def is_space_def lit_def)
  have a1: "trim (inputMessage scenario_state) \<noteq> []" unfolding t by (simp add: lit_def)
  have a2: "\<not> isLoading scenario_state" by (simp add: scenario_state_def init_state_def)
  have nm: "\<not> includes_str (concat (map fst ?cs)) MARKER"
    by (simp add: includes_str_def MARKER_def lit_def)
  have resp: "response cancelled_env =
      Response True (map (\<lambda>(c, t). Chunk c t) ?cs @ ReadRejected AbortError # [])"
    by (simp add: cancelled_env_def scenario_env_def)
  have a3: "response cancelled_env = FetchRejected AbortError \<or>
         response cancelled_env =
           Response True (map (\<lambda>(c, t). Chunk c t) ?cs @ ReadRejected AbortError # []) \<and>
         \<not> includes_str (concat (map fst ?cs)) MARKER"
    using resp nm by blast
  note c = conjunct1[OF cancellation_silent[OF a1 a2 a3]]
  have d: "displayed ?cs (loopStart cancelled_env) (streamingMessage scenario_state) = lit ''## Flu\<newline>''"
    by (simp add: displayed_def cancelled_env_def scenario_env_def UPDATE_INTERVAL_def)
  have ne: "response cancelled_env \<noteq> FetchRejected AbortError" unfolding resp by simp
  have e: "userNow cancelled_env = 1000" "aiNow cancelled_env = 1005"
    "userStamp cancelled_env = lit ''2025-01-01T00:00:01.000Z''"
    "aiStamp cancelled_env = lit ''2025-01-01T00:00:01.005Z''"
    by (simp_all add: cancelled_env_def scenario_env_def)
  have n: "lit ''user-'' @ String_num 1000 = lit ''user-1000''" "lit ''ai-'' @ String_num 1005 = lit ''ai-1005''"
    by (simp_all add: String_num_def lit_def digits10.simps)
  have r: "response cancelled_env =
     Response True [Chunk (lit ''## Flu\<newline>'') 1060, Chunk (lit ''**Fever**\<newline>'') 1070,
                    ReadRejected AbortError]"
    by (simp add: cancelled_env_def scenario_env_def)
  have "handleSubmit cancelled_env scenario_state =
     \<lparr>messages =
        [\<lparr>msg_id = lit ''user-1000'', message = lit ''What are the symptoms of flu?'',
          sender = SenderUser, timestamp = lit ''2025-01-01T00:00:01.000Z'', streaming = None,
          status = None\<rparr>,
         \<lparr>msg_id = lit ''ai-1005'', message = [], sender = SenderAi,
          timestamp = lit ''2025-01-01T00:00:01.005Z'', streaming = Some True, status = None\<rparr>],
      inputMessage = [], isLoading = False, suggestions = JArr [],
      streamingMessage = lit ''## Flu\<newline>'',
      conversationHistory = [\<lparr>role = RoleUser, content = lit ''What are the symptoms of flu?''\<rparr>]\<rparr>"
    unfolding c d t e n using ne
    by (simp add: scenario_state_def init_state_def slice_neg_def)
  with a1 a2 r show ?thesis by blast
qed

text \<open>
  Claim C7. In every session that starts from the initial state, whatever the texts and
  the environments of its submissions, the history is the last 10 turns of the log of
  turns (all of them when there are fewer), in their order; so it never has more than 10
  turns.
\<close>

theorem history_window:
  "conversationHistory (run_submits init_state ss) =
     drop (length (turn_log init_state ss) - 10) (turn_log init_state ss) \<and>
   length (conversationHistory (run_submits init_state ss)) \<le> 10 \<and>
   length (conversationHistory (run_submits init_state ss)) = min 10 (length (turn_log init_state ss))"
proof -
  have "conversationHistory init_state = slice_neg 10 []"
    by (simp add: init_state_def slice_neg_def)
  from run_submits_history[OF this, of ss]
  have "conversationHistory (run_submits init_state ss) = slice_neg 10 (turn_log init_state ss)"
    by simp
  then show ?thesis by (simp add: slice_neg_length) (simp add: slice_neg_def)
qed

text \<open>
  Claim C8. The result is said to be the first token of the form \<open>NN[.N]%\<close>, and the
  empty string when the text has none. The expression of the code also takes white space
  between the number and the percent sign: on \<open>50 %\<close>, which has no token of that form,
  the result is \<open>50 %\<close> and not the empty string; and on \<open>50 % sure, 60% maybe\<close>, whose
  first token of that form is \<open>60%\<close>, at offset 11, the result is again \<open>50 %\<close>.
\<close>

theorem extractConfidence_counterexample:
  "extractConfidence (lit ''50 %'') = lit ''50 %'' \<and>
   (\<forall>i w. \<not> spec_token_at (lit ''50 %'') i w) \<and>
   extractConfidence (lit ''50 % sure, 60% maybe'') = lit ''50 %'' \<and>
   spec_token_at (lit ''50 % sure, 60% maybe'') 11 (lit ''60%'') \<and>
   (\<forall>j w. \<not> (j < 11 \<and> spec_token_at (lit ''50 % sure, 60% maybe'') j w))"
proof (intro conjI allI)
  show "extractConfidence (lit ''50 %'') = lit ''50 %''"
    by (simp add: extractConfidence_def match_percent_at_def match_fraction_def lit_def
        is_digit_def is_space_def)
  show "\<And>i w. \<not> spec_token_at (lit ''50 %'') i w" by (rule no_spec_token_50)
  show "extractConfidence (lit ''50 % sure, 60% maybe'') = lit ''50 %''"
    by (simp add: extractConfidence_def match_percent_at_def match_fraction_def lit_def
        is_digit_def is_space_def)
  have "spec_token (lit ''60%'')"
    unfolding spec_token_def
    by (intro exI[of _ "lit ''60''"] exI[of _ "[]"]) (simp add: lit_def is_digit_def)
  then show "spec_token_at (lit ''50 % sure, 60% maybe'') 11 (lit ''60%'')"
    by (simp add: spec_token_at_def lit_def)
  fix j :: nat and w
  show "\<not> (j < 11 \<and> spec_token_at (lit ''50 % sure, 60% maybe'') j w)"
  proof
    assume a: "j < 11 \<and> spec_token_at (lit ''50 % sure, 60% maybe'') j w"
    then have j: "j < 11" ..
    note m = spec_token_at_match[OF conjunct2[OF a]]
    show False
    proof (cases "j < 6")
      case True
      then consider "j = 0" | "j = 1" | "j = 2" | "j = 3" | "j = 4" | "j = 5" by linarith
      then show False
        using m
        by cases (auto simp: lit_def match_percent_at_def match_fraction_def is_digit_def is_space_def)
    next
      case False
      with j consider "j = 6" | "j = 7" | "j = 8" | "j = 9" | "j = 10" by linarith
      then show False
        using m
        by cases (auto simp: lit_def match_percent_at_def match_fraction_def is_digit_def is_space_def)
    qed
  qed
qed

text \<open>
  Claim C8, as amended. For every text, \<open>extractConfidence\<close> returns the first token made
  of digits, an optional fraction, optional white space and a percent sign: the result is
  empty exactly when no such token occurs, and otherwise it is the token at the leftmost
  offset at which one starts. A text that has the phrase \<open>diagnosis with 87% confidence\<close>
  after a part without a token gives \<open>87%\<close>. The function is total: a text without a
  match gives the empty string and nothing is raised.
\<close>

theorem extractConfidence_first_token:
  "(extractConfidence t = [] \<longleftrightarrow> (\<forall>i w. \<not> token_at t i w)) \<and>
   (\<forall>w. extractConfidence t = w \<and> w \<noteq> [] \<longleftrightarrow>
        (\<exists>i. token_at t i w \<and> (\<forall>j < i. \<forall>w'. \<not> token_at t j w'))) \<and>
   ((\<forall>i w. \<not> token_at pre i w) \<longrightarrow>
      extractConfidence (pre @ lit ''diagnosis with 87% confidence'' @ post) = lit ''87%'')"
proof (intro conjI allI)
  show "extractConfidence t = [] \<longleftrightarrow> (\<forall>i w. \<not> token_at t i w)"
  proof (cases "search_percent t")
    case None
    then show ?thesis using search_percent_None[of t] by (simp add: extractConfidence_def)
  next
    case (Some v)
    then obtain i where "token_at t i v" using search_percent_Some[of t v] by blast
    moreover from this have "v \<noteq> []" by (auto simp: token_at_def dest: pct_token_nonempty)
    ultimately show ?thesis using Some by (auto simp: extractConfidence_def)
  qed
next
  fix w
  show "extractConfidence t = w \<and> w \<noteq> [] \<longleftrightarrow>
        (\<exists>i. token_at t i w \<and> (\<forall>j < i. \<forall>w'. \<not> token_at t j w'))"
  proof (cases "search_percent t")
    case None
    then have "\<forall>i w. \<not> token_at t i w" using search_percent_None[of t] by simp
    with None show ?thesis by (auto simp: extractConfidence_def)
  next
    case (Some v)
    then obtain i where "token_at t i v" using search_percent_Some[of t v] by blast
    then have nz: "v \<noteq> []" by (auto simp: token_at_def dest: pct_token_nonempty)
    have "extractConfidence t = v" using Some nz by (simp add: extractConfidence_def)
    moreover have "(\<exists>i. token_at t i w \<and> (\<forall>j < i. \<forall>w'. \<not> token_at t j w')) \<longleftrightarrow> v = w"
      using search_percent_Some[of t w] Some by auto
    ultimately show ?thesis using nz by auto
  qed
next
  show "(\<forall>i w. \<not> token_at pre i w) \<longrightarrow>
      extractConfidence (pre @ lit ''diagnosis with 87% confidence'' @ post) = lit ''87%''"
    using extractConfidence_87 by blast
qed

theorem extractConfidence_first_token_witness:
  "extractConfidence (lit ''...diagnosis with 87% confidence...'') = lit ''87%'' \<and>
   extractConfidence (lit ''no percentage in this text'') = [] \<and>
   (\<forall>i w. \<not> token_at (lit ''no percentage in this text'') i w) \<and>
   (\<exists>i. token_at (lit ''...diagnosis with 87% confidence...'') i (lit ''87%''))"
proof -
  have a: "extractConfidence (lit ''...'' @ lit ''diagnosis with 87% confidence'' @ lit ''...'') = lit ''87%''"
    using extractConfidence_first_token[of "[]" "lit ''...''" "lit ''...''"] no_token_dots by blast
  have a': "extractConfidence (lit ''...diagnosis with 87% confidence...'') = lit ''87%''"
    using a by (simp add: lit_def)
  have b: "extractConfidence (lit ''no percentage in this text'') = []"
    by (simp add: extractConfidence_def match_percent_at_def lit_def is_digit_def)
  have c: "\<forall>i w. \<not> token_at (lit ''no percentage in this text'') i w"
    using extractConfidence_first_token[of "lit ''no percentage in this text''" "[]" "[]"] b by blast
  have "lit ''87%'' \<noteq> []" by (simp add: lit_def)
  with a' have d: "\<exists>i. token_at (lit ''...diagnosis with 87% confidence...'') i (lit ''87%'')"
    using extractConfidence_first_token[of "lit ''...diagnosis with 87% confidence...''" "[]" "[]"]
    by blast
  show ?thesis using a' b c d by blast
qed

text \<open>
  Claim C9. An id that is not a key of the store should make \<open>updateDiagnosis\<close> return
  \<open>undefined\<close> and leave the store alone. The guard \<open>!diagnoses[id]\<close> also sees what the
  store object inherits: on the seeded store, the id \<open>constructor\<close> is not a key, yet the
  call returns the object made of the updates and stores it under a new key
  \<open>constructor\<close>. (For a key of the store and for an id that is neither a key nor
  inherited, \<open>updateDiagnosis_frame\<close> and \<open>updateDiagnosis_absent\<close> above give what the
  claim says.)
\<close>

theorem updateDiagnosis_inherited_key:
  "lit ''constructor'' \<notin> dom (diagnoses (initial_store (lit ''2025-01-01T00:00:00.000Z''))) \<and>
   updateDiagnosis (lit ''constructor'') [lit ''status'' \<mapsto> Str (lit ''approved'')]
       (initial_store (lit ''2025-01-01T00:00:00.000Z'')) =
     (Obj [lit ''status'' \<mapsto> Str (lit ''approved'')],
      (initial_store (lit ''2025-01-01T00:00:00.000Z''))
        \<lparr>diagnoses := (diagnoses (initial_store (lit ''2025-01-01T00:00:00.000Z'')))
           (lit ''constructor'' \<mapsto> [lit ''status'' \<mapsto> Str (lit ''approved'')])\<rparr>)"
proof -
  let ?s = "initial_store (lit ''2025-01-01T00:00:00.000Z'')"
  have ne: "lit ''constructor'' \<noteq> lit ''1''" "lit ''constructor'' \<noteq> lit ''2''"
    "lit ''constructor'' \<noteq> lit ''3''" "lit ''constructor'' \<noteq> lit ''__proto__''"
    by (simp_all add: lit_def)
  have own: "diagnoses ?s (lit ''constructor'') = None"
    using ne by (simp add: initial_store_def)
  have mem: "lit ''constructor'' \<in> set Object_prototype_names"
    by (simp add: Object_prototype_names_def)
  have get: "store_get ?s (lit ''constructor'') = Builtin (lit ''constructor'')"
    using own mem ne(4)
    by (simp add: store_get_def inherited_get_def Object_prototype_get_def initial_store_def)
  have set: "store_set ?s (lit ''constructor'') v = ?s\<lparr>diagnoses := (diagnoses ?s)(lit ''constructor'' \<mapsto> v)\<rparr>" for v
    using ne(4) by (simp add: store_set_def)
  have get': "store_get (?s\<lparr>diagnoses := (diagnoses ?s)(lit ''constructor'' \<mapsto> v)\<rparr>)
      (lit ''constructor'') = Obj v" for v
    by (simp add: store_get_def)
  have "updateDiagnosis (lit ''constructor'') [lit ''status'' \<mapsto> Str (lit ''approved'')] ?s =
     (Obj [lit ''status'' \<mapsto> Str (lit ''approved'')],
      ?s\<lparr>diagnoses := (diagnoses ?s)
           (lit ''constructor'' \<mapsto> [lit ''status'' \<mapsto> Str (lit ''approved'')])\<rparr>)"
    unfolding updateDiagnosis_def get set Let_def get' by simp
  with own show ?thesis by (simp add: domIff)
qed

text \<open>
  Claim C10. In every state reached from the seeded store by well-typed calls,
  \<open>addDiagnosis\<close> returns the given record with the id attached, the id being the decimal
  form of the incremented counter; the counter is 3 plus the number of earlier
  insertions, so the ids are 4, 5, 6 and so on, in this order; the id is not a key of
  the store before the call and is none of the seeded ids; the record is stored under
  it, and every other entry is unchanged.
\<close>

theorem addDiagnosis_fresh_id:
  assumes ops: "list_all typed_op ops"
    and s: "s = run_ops (initial_store stamp) ops"
    and add: "addDiagnosis d s = (r, s')"
    and k: "k = String_num (diagnosesCounter s + 1)"
  shows "r = d(lit ''id'' \<mapsto> Str k) \<and>
         diagnosesCounter s = 3 + length (filter is_add ops) \<and>
         diagnosesCounter s' = diagnosesCounter s + 1 \<and>
         k \<notin> dom (diagnoses s) \<and>
         k \<notin> {lit ''1'', lit ''2'', lit ''3''} \<and>
         diagnoses s' k = Some r \<and>
         (\<forall>j. j \<noteq> k \<longrightarrow> diagnoses s' j = diagnoses s j) \<and>
         diagnoses_proto s' = diagnoses_proto s"
proof -
  have inv: "store_inv s"
    unfolding s run_ops_def using initial_store_inv ops by (rule foldl_apply_op_inv)
  have cnt: "diagnosesCounter s = 3 + length (filter is_add ops)"
    unfolding s run_ops_def by (simp add: foldl_apply_op_counter initial_store_def)
  have fresh: "diagnoses s k = None"
    using inv k by (simp add: store_inv_def)
  have e: "lit ''1'' = String_num 1" "lit ''2'' = String_num 2" "lit ''3'' = String_num 3"
    by (simp_all add: String_num_def lit_def digits10.simps)
  have seeded: "k \<notin> {lit ''1'', lit ''2'', lit ''3''}"
    unfolding e k using cnt by (simp add: String_num_inj)
  from add have r: "r = d(lit ''id'' \<mapsto> Str k)"
    and s': "s' = (s\<lparr>diagnosesCounter := diagnosesCounter s + 1\<rparr>)\<lparr>diagnoses := (diagnoses s)(k \<mapsto> r)\<rparr>"
    by (auto simp: addDiagnosis_def Let_def k store_set_numeric)
  show ?thesis
    using r cnt fresh seeded by (simp add: s' domIff)
qed

theorem addDiagnosis_fresh_id_witness:
  "list_all typed_op
     [Update (lit ''2'') [lit ''status'' \<mapsto> Str (lit ''approved'')], Add Map.empty] \<and>
   (\<exists>s r s'.
      s = run_ops (initial_store (lit ''2025-01-01T00:00:00.000Z''))
            [Update (lit ''2'') [lit ''status'' \<mapsto> Str (lit ''approved'')], Add Map.empty] \<and>
      addDiagnosis [lit ''type'' \<mapsto> Str (lit ''Symptom Analysis'')] s = (r, s') \<and>
      r (lit ''id'') = Some (Str (lit ''5'')) \<and>
      diagnoses s' (lit ''5'') = Some r \<and>
      lit ''5'' \<notin> dom (diagnoses s) \<and>
      diagnoses s' (lit ''4'') = diagnoses s (lit ''4''))"
proof -
  let ?ops = "[Update (lit ''2'') [lit ''status'' \<mapsto> Str (lit ''approved'')], Add Map.empty]"
  define s where "s = run_ops (initial_store (lit ''2025-01-01T00:00:00.000Z'')) ?ops"
  obtain r s' where add: "addDiagnosis [lit ''type'' \<mapsto> Str (lit ''Symptom Analysis'')] s = (r, s')"
    by (cases "addDiagnosis [lit ''type'' \<mapsto> Str (lit ''Symptom Analysis'')] s") auto
  have ty: "list_all typed_op ?ops"
    by (simp add: DiagnosisData_fields_def)
  note t = addDiagnosis_fresh_id[OF ty s_def add refl]
  from t have cnt: "diagnosesCounter s = 4" by simp
  have k: "String_num (diagnosesCounter s + 1) = lit ''5''"
    unfolding cnt by (simp add: String_num_def lit_def digits10.simps)
  have ne: "lit ''4'' \<noteq> lit ''5''" by (simp add: lit_def)
  from t have "r (lit ''id'') = Some (Str (lit ''5''))" "diagnoses s' (lit ''5'') = Some r"
    "lit ''5'' \<notin> dom (diagnoses s)" "diagnoses s' (lit ''4'') = diagnoses s (lit ''4'')"
    unfolding k using ne by auto
  with ty s_def add show ?thesis by blast
qed

end
